theory Spec2Isabelle
  imports Complex_Main "HOL-Library.Sublist"
begin

section \<open>The Sidecar process bridge\<close>

text \<open>
  A shallow embedding of the class \<open>Sidecar\<close>: the per-line dispatch handler installed by
  \<open>start\<close>, \<open>createFriendlyError\<close>, \<open>writeWithLock\<close> and \<open>call\<close>.

  The JavaScript built-ins the class calls are not code of the class. They are taken as a
  parameter, the record \<open>js\<close> below: \<open>JSON.parse\<close> (which throws on a line that is not
  JSON), \<open>JSON.stringify\<close> (which throws on a value it cannot serialise, for example a
  BigInt or a cyclic object; \<open>params\<close> has type \<open>any\<close>) and the string conversion of a
  template literal (which throws on an array that holds an object whose \<open>toString\<close> and
  \<open>valueOf\<close> are not functions). The value of \<open>randomUUID()\<close> is an argument of \<open>call\<close>.
\<close>

subsection \<open>Values\<close>

type_synonym uuid = string

text \<open>
  The values the handler sees: what \<open>JSON.parse\<close> returns, and \<open>undefined\<close>, the value
  of a property that is absent. An object is the list of its own properties.
\<close>

datatype json =
    Undefined
  | JNull
  | JBool bool
  | JNum real
  | JStr string
  | JArr "json list"
  | JObj "(string \<times> json) list"

text \<open>The exceptions that can travel through the handler and through \<open>call\<close>.\<close>

datatype exn =
    SyntaxError
  | TypeError
  | Thrown string  \<comment> \<open>whatever a progress callback throws\<close>

text \<open>An \<open>Error\<close> object: its \<open>name\<close> and its \<open>message\<close>.\<close>

record js_error =
  name :: string
  message :: string

record 'p js =
  JSON_parse :: "string \<Rightarrow> json option"  \<comment> \<open>\<open>None\<close>: throws SyntaxError\<close>
  JSON_stringify :: "uuid \<Rightarrow> string \<Rightarrow> 'p \<Rightarrow> string option"
    \<comment> \<open>\<open>JSON.stringify({ id, method, params })\<close>; \<open>None\<close>: throws TypeError\<close>
  ToString :: "json \<Rightarrow> string option"
    \<comment> \<open>\<open>`${v}`\<close> for a value that is not a string; \<open>None\<close>: throws TypeError\<close>

text \<open>
  \<open>msg.k\<close> for the four property names the handler reads (\<open>event\<close>, \<open>id\<close>, \<open>result\<close>,
  \<open>error\<close>): a number, a boolean, a string and an array have none of the four. Reading a
  property of \<open>null\<close> or \<open>undefined\<close> throws; the handler model tests that first.
\<close>

fun get_prop :: "json \<Rightarrow> string \<Rightarrow> json" where
  "get_prop (JObj kvs) k = (case map_of kvs k of Some v \<Rightarrow> v | None \<Rightarrow> Undefined)"
| "get_prop _ k = Undefined"

text \<open>Truthiness, as \<open>&&\<close> and \<open>if\<close> test it.\<close>

fun truthy :: "json \<Rightarrow> bool" where
  "truthy Undefined = False"
| "truthy JNull = False"
| "truthy (JBool b) = b"
| "truthy (JNum x) = (x \<noteq> 0)"
| "truthy (JStr s) = (s \<noteq> [])"
| "truthy (JArr _) = True"
| "truthy (JObj _) = True"

subsection \<open>createFriendlyError\<close>

text \<open>\<open>String.prototype.includes\<close>: \<open>t\<close> occurs in \<open>s\<close> as a contiguous substring.\<close>

fun str_includes :: "string \<Rightarrow> string \<Rightarrow> bool" where
  "str_includes [] t = (t = [])"
| "str_includes (c # cs) t = (prefix t (c # cs) \<or> str_includes cs t)"

text \<open>
  \<open>errorMessage.includes(t)\<close> for the value the handler passes, \<open>msg.error\<close>, which is
  any truthy JSON value: on a string the substring test, on an array
  \<open>Array.prototype.includes\<close> (some element is the string \<open>t\<close>), and on a number, a
  boolean or an object a TypeError, since \<open>includes\<close> is not a function there.
\<close>

fun js_includes :: "json \<Rightarrow> string \<Rightarrow> bool option" where
  "js_includes (JStr s) t = Some (str_includes s t)"
| "js_includes (JArr vs) t = Some (JStr t \<in> set vs)"
| "js_includes _ t = None"

text \<open>The text of \<open>`${errorMessage}`\<close>, or \<open>None\<close> when the conversion throws.\<close>

definition template :: "'p js \<Rightarrow> json \<Rightarrow> string option" where
  "template rt v = (case v of JStr s \<Rightarrow> Some s | _ \<Rightarrow> ToString rt v)"

definition friendly :: "string \<Rightarrow> string \<Rightarrow> js_error" where
  "friendly n m = \<lparr> name = n, message = m \<rparr>"

text \<open>
  The if-chain of \<open>createFriendlyError\<close>, for an argument on which \<open>includes\<close> is
  \<open>inc\<close>. The template literal is evaluated in the last branch only: \<open>original\<close> is its
  text, and the branch throws when the conversion does.
\<close>

definition classify :: "(string \<Rightarrow> bool) \<Rightarrow> string option \<Rightarrow> exn + js_error" where
  "classify inc original =
    (if inc ''API key not provided'' \<or> inc ''You didn't provide an API key'' then
       Inr (friendly ''API_KEY_MISSING''
         ''OpenAI API key is not configured. Add it in settings for better transcription quality.'')
     else if inc ''401 Unauthorized'' \<or> inc ''Unauthorized'' then
       Inr (friendly ''API_KEY_INVALID''
         ''Invalid OpenAI API key. Please check the key in settings.'')
     else if inc ''No whisper models found'' \<or> inc ''No local whisper models available'' then
       Inr (friendly ''NO_LOCAL_MODELS''
         ''Local models not found. Using online transcription via OpenAI API.'')
     else if inc ''whisper.cpp binary not found'' \<or> inc ''FFmpeg not found'' then
       Inr (friendly ''BINARY_NOT_FOUND''
         ''System components not found. Try reinstalling the application.'')
     else if inc ''Network'' \<or> inc ''fetch'' \<or> inc ''ENOTFOUND'' then
       Inr (friendly ''NETWORK_ERROR''
         ''Internet connection problem. Check your connection and try again.'')
     else if inc ''rate limit'' \<or> inc ''Too Many Requests'' then
       Inr (friendly ''RATE_LIMIT''
         ''OpenAI API rate limit exceeded. Try later or check your plan.'')
     else if inc ''insufficient_quota'' \<or> inc ''quota'' then
       Inr (friendly ''QUOTA_EXCEEDED''
         ''OpenAI API quota exhausted. Top up your account or use local models.'')
     else if inc ''file not found'' \<or> inc ''No such file'' then
       Inr (friendly ''FILE_NOT_FOUND''
         ''File not found. Make sure the video file exists and is accessible.'')
     else if inc ''dyld: Library not loaded'' \<or> inc ''image not found'' then
       Inr (friendly ''BINARY_DEP_MISSING''
         ''Media tools are missing system libraries. Use static ffmpeg/ffprobe builds or reinstall.'')
     else
       (case original of
          None \<Rightarrow> Inl TypeError
        | Some text \<Rightarrow> Inr (friendly ''UNKNOWN_ERROR'' (''An error occurred: '' @ text))))"

text \<open>
  \<open>createFriendlyError(msg.error)\<close>. The first \<open>includes\<close> call already throws when the
  value has no such method; otherwise the if-chain runs.
\<close>

definition createFriendlyError :: "'p js \<Rightarrow> json \<Rightarrow> exn + js_error" where
  "createFriendlyError rt errorMessage =
    (case js_includes errorMessage [] of
       None \<Rightarrow> Inl TypeError
     | Some _ \<Rightarrow>
         classify (\<lambda>t. js_includes errorMessage t = Some True) (template rt errorMessage))"

subsection \<open>The state of a Sidecar\<close>

text \<open>
  A progress callback is caller code. Its model is what it does to the handler: it returns
  (\<open>None\<close>) or throws (\<open>Some\<close>). A callback that itself issues a \<open>call\<close> is the
  event sequence with that \<open>Call\<close> right after the line, since the handler touches nothing
  after the callback.

  A request is named by its handle: the number of the \<open>call\<close> invocation that made it,
  counted from 0. The handle stands for the promise and for the \<open>resolve\<close>/\<open>reject\<close>
  pair of that promise which the table \<open>pending\<close> holds.
\<close>

type_synonym callback = "json \<Rightarrow> exn option"

datatype outcome = Resolved json | Rejected js_error

text \<open>
  What callers observe, in the order it happens: a progress callback of request \<open>h\<close> is
  invoked, or the promise of request \<open>h\<close> is settled.
\<close>

datatype effect = Invoked nat json | Settled nat outcome

text \<open>
  The promise \<open>writeLock\<close>, the tail of the chain of writes: fulfilled (\<open>Idle\<close>), waiting
  for the callback of \<open>stdin.write\<close> for the request given (\<open>Writing\<close>), waiting for the
  5 ms timer after a successful write (\<open>Flushing\<close>), or rejected (\<open>Failed\<close>).
\<close>

datatype chain = Idle | Writing nat uuid | Flushing | Failed js_error

datatype console_line =
    RawResponse string
  | ProgressEvent json
  | SuccessResponse json json
  | ErrorResponse json json
  | FailedToParse string exn
  | CallingMethod string uuid
  | SendingRequest
  | WritingToProcess
  | WriteError js_error
  | WriteSuccessful
  | WriteLockChainError js_error
  | FailedToWrite js_error

record state =
  proc_stdin :: bool  \<comment> \<open>\<open>this.proc && this.proc.stdin\<close>\<close>
  pending :: "uuid \<rightharpoonup> nat"
  progressCallbacks :: "uuid \<rightharpoonup> nat \<times> callback"  \<comment> \<open>the callback and the request that registered it\<close>
  writeLock :: chain
  waiting :: "(nat \<times> uuid \<times> string) list"
    \<comment> \<open>the continuations chained on \<open>writeLock\<close> that have not run yet, oldest first\<close>
  wire :: "string list"  \<comment> \<open>the arguments of the \<open>stdin.write\<close> calls made so far\<close>
  issued :: "uuid list"  \<comment> \<open>history: the identifier each \<open>call\<close> drew, in call order\<close>
  enqueued :: "string list"  \<comment> \<open>history: the request lines given to \<open>writeWithLock\<close>, in call order\<close>
  journal :: "effect list"
  console :: "console_line list"

definition init :: "bool \<Rightarrow> state" where
  "init available =
    \<lparr> proc_stdin = available, pending = Map.empty, progressCallbacks = Map.empty,
      writeLock = Idle, waiting = [], wire = [], issued = [], enqueued = [],
      journal = [], console = [] \<rparr>"

definition console_log :: "console_line \<Rightarrow> state \<Rightarrow> state" where
  "console_log l st = st\<lparr>console := console st @ [l]\<rparr>"

text \<open>The state of the promise of request \<open>h\<close>: its first settlement, if any.\<close>

fun settled_in :: "effect list \<Rightarrow> nat \<Rightarrow> outcome option" where
  "settled_in [] h = None"
| "settled_in (Settled h' out # es) h = (if h' = h then Some out else settled_in es h)"
| "settled_in (Invoked h' m # es) h = settled_in es h"

text \<open>\<open>resolve(v)\<close> and \<open>reject(e)\<close>: a promise that is already settled ignores them.\<close>

definition settle :: "nat \<Rightarrow> outcome \<Rightarrow> state \<Rightarrow> state" where
  "settle h out st =
    (if settled_in (journal st) h = None then st\<lparr>journal := journal st @ [Settled h out]\<rparr>
     else st)"

text \<open>
  \<open>Map.get\<close> and \<open>Map.delete\<close> with the key \<open>msg.id\<close>. The keys of both tables are
  strings, so a key that is not a string finds nothing and deletes nothing.
\<close>

definition map_get :: "(uuid \<rightharpoonup> 'a) \<Rightarrow> json \<Rightarrow> 'a option" where
  "map_get m k = (case k of JStr s \<Rightarrow> m s | _ \<Rightarrow> None)"

definition map_delete :: "(uuid \<rightharpoonup> 'a) \<Rightarrow> json \<Rightarrow> (uuid \<rightharpoonup> 'a)" where
  "map_delete m k = (case k of JStr s \<Rightarrow> m(s := None) | _ \<Rightarrow> m)"

subsection \<open>The line handler\<close>

text \<open>
  The body of the \<open>try\<close> block after \<open>JSON.parse\<close>: the new state, and the exception
  that leaves the block, if one does.
\<close>

definition on_message :: "'p js \<Rightarrow> json \<Rightarrow> state \<Rightarrow> state \<times> exn option" where
  "on_message rt msg st =
    (if msg = JNull \<or> msg = Undefined then (st, Some TypeError)
     else if get_prop msg ''event'' = JStr ''progress'' \<and> truthy (get_prop msg ''id'') then
       (let st1 = console_log (ProgressEvent msg) st in
        case map_get (progressCallbacks st1) (get_prop msg ''id'') of
          None \<Rightarrow> (st1, None)
        | Some (h, callback) \<Rightarrow> (st1\<lparr>journal := journal st1 @ [Invoked h msg]\<rparr>, callback msg))
     else if get_prop msg ''result'' \<noteq> Undefined \<and> truthy (get_prop msg ''id'') then
       (let st1 = console_log (SuccessResponse (get_prop msg ''id'') (get_prop msg ''result'')) st;
            st2 = (case map_get (pending st1) (get_prop msg ''id'') of
                     None \<Rightarrow> st1
                   | Some h \<Rightarrow> settle h (Resolved (get_prop msg ''result'')) st1)
        in (st2\<lparr>pending := map_delete (pending st2) (get_prop msg ''id''),
                progressCallbacks := map_delete (progressCallbacks st2) (get_prop msg ''id'')\<rparr>,
            None))
     else if truthy (get_prop msg ''error'') \<and> truthy (get_prop msg ''id'') then
       (let st1 = console_log (ErrorResponse (get_prop msg ''id'') (get_prop msg ''error'')) st in
        case createFriendlyError rt (get_prop msg ''error'') of
          Inl ex \<Rightarrow> (st1, Some ex)
        | Inr friendlyError \<Rightarrow>
            (let st2 = (case map_get (pending st1) (get_prop msg ''id'') of
                          None \<Rightarrow> st1
                        | Some h \<Rightarrow> settle h (Rejected friendlyError) st1)
             in (st2\<lparr>pending := map_delete (pending st2) (get_prop msg ''id''),
                     progressCallbacks := map_delete (progressCallbacks st2) (get_prop msg ''id'')\<rparr>,
                 None)))
     else (st, None))"

text \<open>The handler of \<open>rl.on('line', ...)\<close>: the \<open>catch\<close> logs whatever the block threw.\<close>

definition on_line :: "'p js \<Rightarrow> string \<Rightarrow> state \<Rightarrow> state" where
  "on_line rt line st =
    (let st1 = console_log (RawResponse line) st in
     case JSON_parse rt line of
       None \<Rightarrow> console_log (FailedToParse line SyntaxError) st1
     | Some msg \<Rightarrow>
         (case on_message rt msg st1 of
            (st2, None) \<Rightarrow> st2
          | (st2, Some ex) \<Rightarrow> console_log (FailedToParse line ex) st2))"

subsection \<open>call and writeWithLock\<close>

abbreviation newline :: char where
  "newline \<equiv> CHR 0x0A"

text \<open>
  \<open>writeWithLock(data)\<close> chains one more continuation on \<open>writeLock\<close>; nothing of it runs
  before the caller returns.
\<close>

definition writeWithLock :: "nat \<Rightarrow> uuid \<Rightarrow> string \<Rightarrow> state \<Rightarrow> state" where
  "writeWithLock h i data st =
    st\<lparr>waiting := waiting st @ [(h, i, data)], enqueued := enqueued st @ [data]\<rparr>"

text \<open>
  \<open>call(method, params, onProgress)\<close> with \<open>i\<close> the value of \<open>randomUUID()\<close>: the new
  state, and either the handle of the promise returned or the exception thrown.
\<close>

definition call ::
  "'p js \<Rightarrow> uuid \<Rightarrow> string \<Rightarrow> 'p \<Rightarrow> callback option \<Rightarrow> state \<Rightarrow> state \<times> (exn + nat)" where
  "call rt i method params onProgress st =
    (let h = length (issued st);
         st1 = console_log (CallingMethod method i) (st\<lparr>issued := issued st @ [i]\<rparr>);
         st2 = (case onProgress of
                  Some cb \<Rightarrow> st1\<lparr>progressCallbacks := (progressCallbacks st1)(i \<mapsto> (h, cb))\<rparr>
                | None \<Rightarrow> st1)
     in case JSON_stringify rt i method params of
          None \<Rightarrow> (st2, Inl TypeError)
        | Some s \<Rightarrow>
            (let req = s @ [newline];
                 st3 = st2\<lparr>pending := (pending st2)(i \<mapsto> h)\<rparr>;
                 st4 = console_log SendingRequest st3
             in (writeWithLock h i req st4, Inr h)))"

text \<open>
  The \<open>catch\<close> handler \<open>call\<close> puts on the promise of \<open>writeWithLock\<close>, run when the
  chain rejects with \<open>err\<close> at the write of request \<open>h\<close>; before it, the \<open>catch\<close> inside
  \<open>writeWithLock\<close> logs and rethrows. The two console lines of one request are recorded
  together. When several chained continuations are rejected in a row, the code prints the
  chain-error lines of the requests before their failed-to-write lines; the order of the
  console lines of different requests is not part of this model, the order of the table
  updates and settlements is.
\<close>

definition write_failed :: "nat \<Rightarrow> uuid \<Rightarrow> js_error \<Rightarrow> state \<Rightarrow> state" where
  "write_failed h i err st =
    (let st1 = console_log (WriteLockChainError err) st;
         st2 = console_log (FailedToWrite err) st1;
         st3 = st2\<lparr>pending := (pending st2)(i := None)\<rparr>;
         st4 = st3\<lparr>progressCallbacks := (progressCallbacks st3)(i := None)\<rparr>
     in settle h (Rejected err) st4)"

definition not_available :: js_error where
  "not_available = \<lparr> name = ''Error'', message = ''Sidecar process not available'' \<rparr>"

text \<open>
  The oldest continuation on the chain runs, once the promise before it is settled. If that
  promise is fulfilled, the executor runs: it rejects when there is no process, and calls
  \<open>stdin.write(data)\<close> otherwise. If that promise is rejected, \<open>then\<close> skips the executor
  and passes the rejection on, so the write is not made and the chain stays rejected.
\<close>

definition write_turn :: "state \<Rightarrow> state" where
  "write_turn st =
    (case waiting st of
       [] \<Rightarrow> st
     | (h, i, data) # rest \<Rightarrow>
         (case writeLock st of
            Idle \<Rightarrow>
              (if \<not> proc_stdin st then
                 write_failed h i not_available
                   (st\<lparr>waiting := rest, writeLock := Failed not_available\<rparr>)
               else
                 console_log WritingToProcess
                   (st\<lparr>waiting := rest, writeLock := Writing h i, wire := wire st @ [data]\<rparr>))
          | Failed err \<Rightarrow> write_failed h i err (st\<lparr>waiting := rest\<rparr>)
          | _ \<Rightarrow> st))"

text \<open>The callback given to \<open>stdin.write\<close> is called, with an error or without.\<close>

definition write_callback :: "js_error option \<Rightarrow> state \<Rightarrow> state" where
  "write_callback err st =
    (case writeLock st of
       Writing h i \<Rightarrow>
         (case err of
            Some e \<Rightarrow> write_failed h i e (console_log (WriteError e) (st\<lparr>writeLock := Failed e\<rparr>))
          | None \<Rightarrow> console_log WriteSuccessful (st\<lparr>writeLock := Flushing\<rparr>))
     | _ \<Rightarrow> st)"

text \<open>\<open>setTimeout(resolve, 5)\<close> fires.\<close>

definition flush_timer :: "state \<Rightarrow> state" where
  "flush_timer st = (case writeLock st of Flushing \<Rightarrow> st\<lparr>writeLock := Idle\<rparr> | _ \<Rightarrow> st)"

subsection \<open>Runs\<close>

text \<open>
  Everything that can happen to a Sidecar after its constructor. Any order of events is a
  run, which covers every schedule of the event loop.
\<close>

datatype 'p event =
    Call uuid string 'p "callback option"
  | Line string
  | WriteTurn
  | WriteCallback "js_error option"
  | FlushTimer

fun step :: "'p js \<Rightarrow> 'p event \<Rightarrow> state \<Rightarrow> state" where
  "step rt (Call i method params onProgress) st = fst (call rt i method params onProgress st)"
| "step rt (Line l) st = on_line rt l st"
| "step rt WriteTurn st = write_turn st"
| "step rt (WriteCallback err) st = write_callback err st"
| "step rt FlushTimer st = flush_timer st"

fun run :: "'p js \<Rightarrow> 'p event list \<Rightarrow> state \<Rightarrow> state" where
  "run rt [] st = st"
| "run rt (e # es) st = run rt es (step rt e st)"

subsection \<open>The taxonomy as the specification words it\<close>

datatype kind =
    CredentialsMissing
  | CredentialsInvalid
  | LocalResourceMissing
  | DependencyMissing
  | NetworkFailure
  | RateLimited
  | QuotaExhausted
  | InputNotFound
  | NativeDependencyMissing
  | Unknown

text \<open>The \<open>name\<close> the code gives the error of each kind.\<close>

fun kind_name :: "kind \<Rightarrow> string" where
  "kind_name CredentialsMissing = ''API_KEY_MISSING''"
| "kind_name CredentialsInvalid = ''API_KEY_INVALID''"
| "kind_name LocalResourceMissing = ''NO_LOCAL_MODELS''"
| "kind_name DependencyMissing = ''BINARY_NOT_FOUND''"
| "kind_name NetworkFailure = ''NETWORK_ERROR''"
| "kind_name RateLimited = ''RATE_LIMIT''"
| "kind_name QuotaExhausted = ''QUOTA_EXCEEDED''"
| "kind_name InputNotFound = ''FILE_NOT_FOUND''"
| "kind_name NativeDependencyMissing = ''BINARY_DEP_MISSING''"
| "kind_name Unknown = ''UNKNOWN_ERROR''"

text \<open>The table of the specification, row by row, with the trigger substrings it prints.\<close>

definition spec_taxonomy :: "(kind \<times> string list) list" where
  "spec_taxonomy =
    [(CredentialsMissing, [''API key not provided'', ''didn't provide an API key'']),
     (CredentialsInvalid, [''401 Unauthorized'', ''Unauthorized'']),
     (LocalResourceMissing, [''No whisper models found'', ''No local whisper models available'']),
     (DependencyMissing, [''whisper.cpp binary not found'', ''FFmpeg not found'']),
     (NetworkFailure, [''Network'', ''fetch'', ''ENOTFOUND'']),
     (RateLimited, [''rate limit'', ''Too Many Requests'']),
     (QuotaExhausted, [''insufficient_quota'', ''quota'']),
     (InputNotFound, [''file not found'', ''No such file'']),
     (NativeDependencyMissing, [''Library not loaded'', ''image not found''])]"

text \<open>
  The same table with the two triggers the code tests in full:
  \<open>You didn't provide an API key\<close> and \<open>dyld: Library not loaded\<close>.
\<close>

definition code_taxonomy :: "(kind \<times> string list) list" where
  "code_taxonomy =
    [(CredentialsMissing, [''API key not provided'', ''You didn't provide an API key'']),
     (CredentialsInvalid, [''401 Unauthorized'', ''Unauthorized'']),
     (LocalResourceMissing, [''No whisper models found'', ''No local whisper models available'']),
     (DependencyMissing, [''whisper.cpp binary not found'', ''FFmpeg not found'']),
     (NetworkFailure, [''Network'', ''fetch'', ''ENOTFOUND'']),
     (RateLimited, [''rate limit'', ''Too Many Requests'']),
     (QuotaExhausted, [''insufficient_quota'', ''quota'']),
     (InputNotFound, [''file not found'', ''No such file'']),
     (NativeDependencyMissing, [''dyld: Library not loaded'', ''image not found''])]"

text \<open>
  The rows applied in table order, the first row with a trigger in the text winning, and
  \<open>Unknown\<close> when no row has one.
\<close>

fun first_match :: "(kind \<times> string list) list \<Rightarrow> string \<Rightarrow> kind" where
  "first_match [] s = Unknown"
| "first_match ((k, triggers) # rows) s =
     (if list_ex (str_includes s) triggers then k else first_match rows s)"

subsection \<open>A sample runtime\<close>

text \<open>
  A small runtime for running the model on concrete inputs. Its \<open>params\<close> are either a
  text that is already JSON (\<open>Some\<close>) or a value \<open>JSON.stringify\<close> rejects (\<open>None\<close>).
  Its parser knows the lines below and rejects every other line; its serialiser escapes
  line feeds, as \<open>JSON.stringify\<close> does.
\<close>

definition sample_parse :: "string \<Rightarrow> json option" where
  "sample_parse l =
    (if l = ''result u1'' then Some (JObj [(''id'', JStr ''u1''), (''result'', JNum 1)])
     else if l = ''error u1'' then
       Some (JObj [(''id'', JStr ''u1''), (''error'', JStr ''401 Unauthorized'')])
     else if l = ''empty error u1'' then Some (JObj [(''id'', JStr ''u1''), (''error'', JStr [])])
     else if l = ''progress u1'' then
       Some (JObj [(''event'', JStr ''progress''), (''id'', JStr ''u1''),
                   (''status'', JStr ''decoding''), (''progress'', JNum (1 / 2))])
     else None)"

fun escape_newlines :: "string \<Rightarrow> string" where
  "escape_newlines [] = []"
| "escape_newlines (c # cs) =
     (if c = newline then CHR 0x5C # CHR ''n'' # escape_newlines cs else c # escape_newlines cs)"

definition sample_stringify :: "uuid \<Rightarrow> string \<Rightarrow> string option \<Rightarrow> string option" where
  "sample_stringify i method params =
    (case params of
       None \<Rightarrow> None
     | Some p \<Rightarrow>
         Some (escape_newlines (''{id:'' @ i @ '',method:'' @ method @ '',params:'' @ p @ ''}'')))"

definition sample :: "string option js" where
  "sample = \<lparr> JSON_parse = sample_parse, JSON_stringify = sample_stringify,
              ToString = (\<lambda>v. Some ''[object Object]'') \<rparr>"

definition quiet :: callback where
  "quiet m = None"

definition faulty :: callback where
  "faulty m = Some (Thrown ''boom'')"

definition epipe :: js_error where
  "epipe = \<lparr> name = ''Error'', message = ''write EPIPE'' \<rparr>"

subsection \<open>Notions the properties are stated with\<close>

text \<open>The state without what was printed.\<close>

definition sans_console :: "state \<Rightarrow> state" where
  "sans_console st = st\<lparr>console := []\<rparr>"


text \<open>
  Every invocation of a progress callback in the journal stands where the promise of its
  request is not settled yet.
\<close>

definition invoked_while_pending :: "effect list \<Rightarrow> bool" where
  "invoked_while_pending es \<longleftrightarrow>
    (\<forall>n < length es. \<forall>h m. es ! n = Invoked h m \<longrightarrow> settled_in (take n es) h = None)"

text \<open>Request \<open>h\<close> was made by a \<open>call\<close> that drew the identifier \<open>i\<close>.\<close>

definition owns :: "state \<Rightarrow> nat \<Rightarrow> uuid \<Rightarrow> bool" where
  "owns st h i \<longleftrightarrow> h < length (issued st) \<and> issued st ! h = i"

text \<open>
  What the dispatch of a terminal message does with the identifier \<open>i\<close>: settle the
  pending request under \<open>i\<close>, if there is one, and delete \<open>i\<close> from both tables.
\<close>

definition finish :: "uuid \<Rightarrow> outcome \<Rightarrow> state \<Rightarrow> state" where
  "finish i out st =
    (let st2 = (case pending st i of None \<Rightarrow> st | Some h \<Rightarrow> settle h out st)
     in st2\<lparr>pending := (pending st2)(i := None),
            progressCallbacks := (progressCallbacks st2)(i := None)\<rparr>)"

text \<open>The invariant of the states a Sidecar can be in.\<close>

definition consistent :: "state \<Rightarrow> bool" where
  "consistent st \<longleftrightarrow>
    (\<forall>i h. pending st i = Some h \<longrightarrow> owns st h i \<and> settled_in (journal st) h = None) \<and>
    (\<forall>i h cb. progressCallbacks st i = Some (h, cb) \<longrightarrow>
       owns st h i \<and> settled_in (journal st) h = None) \<and>
    (\<forall>h i d. (h, i, d) \<in> set (waiting st) \<longrightarrow> owns st h i) \<and>
    (\<forall>h i. writeLock st = Writing h i \<longrightarrow> owns st h i) \<and>
    (\<forall>h. settled_in (journal st) h \<noteq> None \<longrightarrow> h < length (issued st)) \<and>
    invoked_while_pending (journal st)"

text \<open>
  How the lines given to \<open>writeWithLock\<close> are accounted for: they are the lines written,
  then the lines skipped because the chain had failed, then the lines still waiting.
\<close>

definition wire_accounted :: "state \<Rightarrow> bool" where
  "wire_accounted st \<longleftrightarrow>
    (\<exists>skipped. enqueued st = wire st @ skipped @ map (\<lambda>(h, i, data). data) (waiting st)
       \<and> (skipped = [] \<or> (\<exists>err. writeLock st = Failed err)))"

text \<open>A call whose request \<open>JSON.stringify\<close> accepts; every other event.\<close>

fun serialises :: "'p js \<Rightarrow> 'p event \<Rightarrow> bool" where
  "serialises rt (Call i method params onProgress) = (JSON_stringify rt i method params \<noteq> None)"
| "serialises rt e = True"

text \<open>The request lines of the calls of a run, in the order of the calls.\<close>

fun call_lines :: "'p js \<Rightarrow> 'p event list \<Rightarrow> string list" where
  "call_lines rt [] = []"
| "call_lines rt (Call i method params onProgress # es) =
     (case JSON_stringify rt i method params of
        Some s \<Rightarrow> (s @ [newline]) # call_lines rt es
      | None \<Rightarrow> call_lines rt es)"
| "call_lines rt (e # es) = call_lines rt es"

text \<open>
  The events that let the chain of writes run to its end when no write fails: the write in
  progress completes, then each waiting write takes its turn, succeeds and is flushed.
\<close>

definition complete_writes :: "state \<Rightarrow> 'p event list" where
  "complete_writes st =
    (case writeLock st of
       Writing h i \<Rightarrow> [WriteCallback None, FlushTimer]
     | Flushing \<Rightarrow> [FlushTimer]
     | _ \<Rightarrow> [])
    @ concat (replicate (length (waiting st)) [WriteTurn, WriteCallback None, FlushTimer])"

section \<open>Properties\<close>

subsection \<open>Error classification\<close>

lemma createFriendlyError_string:
  "createFriendlyError rt (JStr s) = classify (str_includes s) (Some s)"
  by (simp add: createFriendlyError_def template_def)

lemma first_match_code:
  "first_match code_taxonomy s =
    (if str_includes s ''API key not provided'' \<or> str_includes s ''You didn't provide an API key''
       then CredentialsMissing
     else if str_includes s ''401 Unauthorized'' \<or> str_includes s ''Unauthorized''
       then CredentialsInvalid
     else if str_includes s ''No whisper models found''
          \<or> str_includes s ''No local whisper models available''
       then LocalResourceMissing
     else if str_includes s ''whisper.cpp binary not found'' \<or> str_includes s ''FFmpeg not found''
       then DependencyMissing
     else if str_includes s ''Network'' \<or> str_includes s ''fetch'' \<or> str_includes s ''ENOTFOUND''
       then NetworkFailure
     else if str_includes s ''rate limit'' \<or> str_includes s ''Too Many Requests''
       then RateLimited
     else if str_includes s ''insufficient_quota'' \<or> str_includes s ''quota''
       then QuotaExhausted
     else if str_includes s ''file not found'' \<or> str_includes s ''No such file''
       then InputNotFound
     else if str_includes s ''dyld: Library not loaded'' \<or> str_includes s ''image not found''
       then NativeDependencyMissing
     else Unknown)"
  unfolding code_taxonomy_def
  by (simp only: first_match.simps list_ex_Nil_iff list_ex_Cons_iff simp_thms)

lemma classify_name:
  "map_sum id name (classify (str_includes s) (Some s))
     = Inr (kind_name (first_match code_taxonomy s))"
  unfolding first_match_code classify_def friendly_def
  by (simp split del: if_split cong: if_cong
        add: if_distrib [of "map_sum id name"] if_distrib [of kind_name] if_distrib [of Inr])

lemma first_match_Unknown:
  "first_match rows s = Unknown \<Longrightarrow> Unknown \<notin> fst ` set rows \<Longrightarrow>
   \<forall>(k, ts) \<in> set rows. \<forall>t \<in> set ts. \<not> str_includes s t"
  by (induction rows) (fastforce simp: list_ex_iff split: if_splits)+

lemma classify_Unknown:
  assumes "first_match code_taxonomy s = Unknown"
  shows "classify (str_includes s) (Some s)
           = Inr (friendly ''UNKNOWN_ERROR'' (''An error occurred: '' @ s))"
proof -
  have "Unknown \<notin> fst ` set code_taxonomy"
    by (simp add: code_taxonomy_def)
  with assms have "\<forall>(k, ts) \<in> set code_taxonomy. \<forall>t \<in> set ts. \<not> str_includes s t"
    by (rule first_match_Unknown)
  then have none:
    "\<not> str_includes s ''API key not provided''"
    "\<not> str_includes s ''You didn't provide an API key''"
    "\<not> str_includes s ''401 Unauthorized''"
    "\<not> str_includes s ''Unauthorized''"
    "\<not> str_includes s ''No whisper models found''"
    "\<not> str_includes s ''No local whisper models available''"
    "\<not> str_includes s ''whisper.cpp binary not found''"
    "\<not> str_includes s ''FFmpeg not found''"
    "\<not> str_includes s ''Network''"
    "\<not> str_includes s ''fetch''"
    "\<not> str_includes s ''ENOTFOUND''"
    "\<not> str_includes s ''rate limit''"
    "\<not> str_includes s ''Too Many Requests''"
    "\<not> str_includes s ''insufficient_quota''"
    "\<not> str_includes s ''quota''"
    "\<not> str_includes s ''file not found''"
    "\<not> str_includes s ''No such file''"
    "\<not> str_includes s ''dyld: Library not loaded''"
    "\<not> str_includes s ''image not found''"
    unfolding code_taxonomy_def by simp_all
  show ?thesis
    unfolding classify_def by (simp only: none simp_thms if_False option.case)
qed

lemma createFriendlyError_total: "\<exists>e. createFriendlyError rt (JStr s) = Inr e"
  using classify_name [of s]
  by (cases "classify (str_includes s) (Some s)") (simp_all add: createFriendlyError_string)

text \<open>
  C4, as the specification states it: the kind is the first row of the specification's
  table with a trigger in the text, so a text with \<open>Library not loaded\<close> and no earlier
  trigger is NativeDependencyMissing. The code tests \<open>dyld: Library not loaded\<close>, and
  classifies a text that has the shorter phrase without the prefix as unknown.
\<close>

theorem library_not_loaded_counterexample:
  "first_match spec_taxonomy ''Library not loaded: libavcodec.dylib'' = NativeDependencyMissing
   \<and> createFriendlyError sample (JStr ''Library not loaded: libavcodec.dylib'')
       = Inr \<lparr> name = ''UNKNOWN_ERROR'',
               message = ''An error occurred: Library not loaded: libavcodec.dylib'' \<rparr>"
  by (simp add: spec_taxonomy_def createFriendlyError_string classify_def friendly_def)

text \<open>
  C4, amended: on every error string \<open>createFriendlyError\<close> returns an error (it never
  throws), whose name is that of the first row, in table order, of the table with the
  code's triggers (\<open>You didn't provide an API key\<close>, \<open>dyld: Library not loaded\<close>) that has
  a trigger in the string; when no row has one, the error is the unknown one and its
  message is \<open>An error occurred: \<close> followed by the original string.
\<close>

theorem createFriendlyError_first_match:
  "\<exists>e. createFriendlyError rt (JStr s) = Inr e
     \<and> name e = kind_name (first_match code_taxonomy s)
     \<and> (first_match code_taxonomy s = Unknown \<longrightarrow> message e = ''An error occurred: '' @ s)"
proof (cases "classify (str_includes s) (Some s)")
  case (Inl ex)
  with classify_name [of s] show ?thesis by simp
next
  case (Inr e)
  with classify_name [of s] classify_Unknown [of s] show ?thesis
    by (auto simp: createFriendlyError_string friendly_def)
qed

theorem createFriendlyError_first_match_witness:
  "\<exists>e. createFriendlyError sample (JStr ''segfault'') = Inr e
     \<and> name e = ''UNKNOWN_ERROR'' \<and> message e = ''An error occurred: segfault''"
  using createFriendlyError_first_match [of sample "''segfault''"]
  by (simp add: code_taxonomy_def)

subsection \<open>How the operations act on the fields\<close>

lemma console_log_fields [simp]:
  "proc_stdin (console_log l st) = proc_stdin st"
  "pending (console_log l st) = pending st"
  "progressCallbacks (console_log l st) = progressCallbacks st"
  "writeLock (console_log l st) = writeLock st"
  "waiting (console_log l st) = waiting st"
  "wire (console_log l st) = wire st"
  "issued (console_log l st) = issued st"
  "enqueued (console_log l st) = enqueued st"
  "journal (console_log l st) = journal st"
  "console (console_log l st) = console st @ [l]"
  by (simp_all add: console_log_def)

lemma settle_fields [simp]:
  "proc_stdin (settle h out st) = proc_stdin st"
  "pending (settle h out st) = pending st"
  "progressCallbacks (settle h out st) = progressCallbacks st"
  "writeLock (settle h out st) = writeLock st"
  "waiting (settle h out st) = waiting st"
  "wire (settle h out st) = wire st"
  "issued (settle h out st) = issued st"
  "enqueued (settle h out st) = enqueued st"
  "console (settle h out st) = console st"
  by (simp_all add: settle_def)

lemma settled_in_append:
  "settled_in (xs @ ys) h = (case settled_in xs h of Some out \<Rightarrow> Some out | None \<Rightarrow> settled_in ys h)"
  by (induction xs h rule: settled_in.induct) auto

lemma settled_in_settle:
  "settled_in (journal (settle h out st)) h' =
    (if h' = h \<and> settled_in (journal st) h = None then Some out else settled_in (journal st) h')"
  by (auto simp: settle_def settled_in_append split: option.splits)

lemma owns_console_log [simp]: "owns (console_log l st) h i = owns st h i"
  by (simp add: owns_def)

lemma owns_settle [simp]: "owns (settle h' out st) h i = owns st h i"
  by (simp add: owns_def)

lemma invoked_while_pending_snoc:
  "invoked_while_pending (es @ [e]) \<longleftrightarrow>
     invoked_while_pending es \<and> (\<forall>h m. e = Invoked h m \<longrightarrow> settled_in es h = None)"
  unfolding invoked_while_pending_def
  by (auto simp: nth_append less_Suc_eq)

lemma inv_console_log [simp]: "consistent (console_log l st) = consistent st"
  by (simp add: consistent_def)

lemma inv_pendingD:
  "consistent st \<Longrightarrow> pending st i = Some h \<Longrightarrow> owns st h i \<and> settled_in (journal st) h = None"
  by (simp add: consistent_def)

lemma inv_progressD:
  "consistent st \<Longrightarrow> progressCallbacks st i = Some (h, cb) \<Longrightarrow>
   owns st h i \<and> settled_in (journal st) h = None"
  unfolding consistent_def by blast

lemma inv_waitingD: "consistent st \<Longrightarrow> (h, i, d) \<in> set (waiting st) \<Longrightarrow> owns st h i"
  unfolding consistent_def by blast

lemma inv_writingD: "consistent st \<Longrightarrow> writeLock st = Writing h i \<Longrightarrow> owns st h i"
  by (simp add: consistent_def)

lemma inv_settledD: "consistent st \<Longrightarrow> settled_in (journal st) h = Some out \<Longrightarrow> h < length (issued st)"
  by (simp add: consistent_def)

lemma inv_journalD: "consistent st \<Longrightarrow> invoked_while_pending (journal st)"
  by (simp add: consistent_def)

lemma invI:
  assumes "\<And>i h. pending st i = Some h \<Longrightarrow> owns st h i \<and> settled_in (journal st) h = None"
    and "\<And>i h cb. progressCallbacks st i = Some (h, cb) \<Longrightarrow>
          owns st h i \<and> settled_in (journal st) h = None"
    and "\<And>h i d. (h, i, d) \<in> set (waiting st) \<Longrightarrow> owns st h i"
    and "\<And>h i. writeLock st = Writing h i \<Longrightarrow> owns st h i"
    and "\<And>h. settled_in (journal st) h \<noteq> None \<Longrightarrow> h < length (issued st)"
    and "invoked_while_pending (journal st)"
  shows "consistent st"
  unfolding consistent_def using assms by blast

lemma owns_unique: "owns st h i \<Longrightarrow> owns st h i' \<Longrightarrow> i = i'"
  by (auto simp: owns_def)

lemma inv_settle:
  assumes "consistent st" "owns st h i" "pending st i = None" "progressCallbacks st i = None"
  shows "consistent (settle h out st)"
proof (rule invI)
  fix i' h'
  assume "pending (settle h out st) i' = Some h'"
  then have p: "pending st i' = Some h'" by simp
  with assms(1) have o: "owns st h' i'" and s: "settled_in (journal st) h' = None"
    using inv_pendingD by blast+
  have "h' \<noteq> h" using o assms(2,3) p owns_unique by fastforce
  with o s show "owns (settle h out st) h' i' \<and> settled_in (journal (settle h out st)) h' = None"
    by (simp add: settled_in_settle)
next
  fix i' h' cb
  assume "progressCallbacks (settle h out st) i' = Some (h', cb)"
  then have p: "progressCallbacks st i' = Some (h', cb)" by simp
  with assms(1) have o: "owns st h' i'" and s: "settled_in (journal st) h' = None"
    using inv_progressD by blast+
  have "h' \<noteq> h" using o assms(2,4) p owns_unique by fastforce
  with o s show "owns (settle h out st) h' i' \<and> settled_in (journal (settle h out st)) h' = None"
    by (simp add: settled_in_settle)
next
  fix h' i' d
  assume "(h', i', d) \<in> set (waiting (settle h out st))"
  with assms(1) show "owns (settle h out st) h' i'"
    using inv_waitingD by simp
next
  fix h' i'
  assume "writeLock (settle h out st) = Writing h' i'"
  with assms(1) show "owns (settle h out st) h' i'"
    using inv_writingD by simp
next
  fix h'
  assume "settled_in (journal (settle h out st)) h' \<noteq> None"
  with assms(1,2) show "h' < length (issued (settle h out st))"
    using inv_settledD by (auto simp: settled_in_settle owns_def split: if_splits)
next
  show "invoked_while_pending (journal (settle h out st))"
    using inv_journalD [OF assms(1)] by (simp add: settle_def invoked_while_pending_snoc)
qed


lemma owns_updates [simp]:
  "owns (st\<lparr>pending := p\<rparr>) h i = owns st h i"
  "owns (st\<lparr>progressCallbacks := c\<rparr>) h i = owns st h i"
  "owns (st\<lparr>journal := j\<rparr>) h i = owns st h i"
  "owns (st\<lparr>waiting := w\<rparr>) h i = owns st h i"
  "owns (st\<lparr>writeLock := k\<rparr>) h i = owns st h i"
  "owns (st\<lparr>wire := ws\<rparr>) h i = owns st h i"
  "owns (st\<lparr>enqueued := q\<rparr>) h i = owns st h i"
  "owns (st\<lparr>console := co\<rparr>) h i = owns st h i"
  by (simp_all add: owns_def)

lemma inv_forget:
  assumes "consistent st"
  shows "consistent (st\<lparr>pending := (pending st)(i := None),
                  progressCallbacks := (progressCallbacks st)(i := None)\<rparr>)"
proof (rule invI)
  show "invoked_while_pending
          (journal (st\<lparr>pending := (pending st)(i := None),
                       progressCallbacks := (progressCallbacks st)(i := None)\<rparr>))"
    using inv_journalD [OF assms] by simp
qed (use assms in \<open>auto dest: inv_pendingD inv_progressD inv_waitingD inv_writingD inv_settledD
       split: if_splits\<close>)

lemma finish_alt:
  "finish i out st =
    (let st' = st\<lparr>pending := (pending st)(i := None),
                   progressCallbacks := (progressCallbacks st)(i := None)\<rparr>
     in case pending st i of None \<Rightarrow> st' | Some h \<Rightarrow> settle h out st')"
  by (simp add: finish_def settle_def Let_def split: option.splits)

lemma inv_finish:
  assumes "consistent st"
  shows "consistent (finish i out st)"
proof (cases "pending st i")
  case None
  then show ?thesis using inv_forget [OF assms, of i] by (simp add: finish_alt)
next
  case (Some h)
  then have "owns st h i" using assms inv_pendingD by blast
  then have "consistent (settle h out (st\<lparr>pending := (pending st)(i := None),
                   progressCallbacks := (progressCallbacks st)(i := None)\<rparr>))"
    by (intro inv_settle [where i = i] inv_forget assms) simp_all
  with Some show ?thesis by (simp add: finish_alt)
qed

lemma inv_sans_console [simp]: "consistent (sans_console st) = consistent st"
  by (simp add: consistent_def sans_console_def owns_def)

lemma inv_cong: "sans_console a = sans_console b \<Longrightarrow> consistent a \<Longrightarrow> consistent b"
  by (metis inv_sans_console)

lemma write_failed_alt:
  "sans_console (write_failed h i err st) =
     sans_console (settle h (Rejected err) (st\<lparr>pending := (pending st)(i := None),
                   progressCallbacks := (progressCallbacks st)(i := None)\<rparr>))"
  by (simp add: write_failed_def sans_console_def settle_def console_log_def Let_def)

lemma inv_write_failed:
  assumes "consistent st" "owns st h i"
  shows "consistent (write_failed h i err st)"
proof -
  have "consistent (settle h (Rejected err) (st\<lparr>pending := (pending st)(i := None),
                   progressCallbacks := (progressCallbacks st)(i := None)\<rparr>))"
    by (intro inv_settle [where i = i] inv_forget assms) (simp_all add: assms)
  then show ?thesis
    using inv_cong [OF write_failed_alt [symmetric]] by blast
qed

lemma inv_invoke:
  assumes "consistent st" "progressCallbacks st i = Some (h, cb)"
  shows "consistent (st\<lparr>journal := journal st @ [Invoked h msg]\<rparr>)"
proof (rule invI)
  show "invoked_while_pending (journal (st\<lparr>journal := journal st @ [Invoked h msg]\<rparr>))"
    using inv_journalD [OF assms(1)] inv_progressD [OF assms]
    by (simp add: invoked_while_pending_snoc)
qed (use assms(1) in \<open>auto dest: inv_pendingD inv_progressD inv_waitingD inv_writingD inv_settledD
       simp: settled_in_append split: option.splits\<close>)


lemma sans_console_log [simp]: "sans_console (console_log l st) = sans_console st"
  by (simp add: sans_console_def console_log_def)

lemma sans_console_console [simp]: "sans_console (st\<lparr>console := c\<rparr>) = sans_console st"
  by (simp add: sans_console_def)

lemma sans_console_finish_log [simp]:
  "sans_console (finish i out (console_log l st)) = sans_console (finish i out st)"
  by (simp add: finish_def sans_console_def console_log_def settle_def Let_def split: option.splits)

lemma sans_console_invoke_log [simp]:
  "sans_console ((console_log l st)\<lparr>journal := j\<rparr>) = sans_console (st\<lparr>journal := j\<rparr>)"
  by (simp add: sans_console_def console_log_def)

lemma map_get_no_string: "\<forall>i. k \<noteq> JStr i \<Longrightarrow> map_get m k = None"
  by (cases k) (simp_all add: map_get_def)

lemma map_delete_no_string: "\<forall>i. k \<noteq> JStr i \<Longrightarrow> map_delete m k = m"
  by (cases k) (simp_all add: map_delete_def)

text \<open>The three things the \<open>try\<close> block can do to the state, the console apart.\<close>

lemma on_message_string_id:
  assumes "get_prop msg ''id'' = JStr i"
  shows "on_message rt msg st =
    (if msg = JNull \<or> msg = Undefined then (st, Some TypeError)
     else if get_prop msg ''event'' = JStr ''progress'' \<and> i \<noteq> [] then
       (case progressCallbacks st i of
          None \<Rightarrow> (console_log (ProgressEvent msg) st, None)
        | Some (h, callback) \<Rightarrow>
            ((console_log (ProgressEvent msg) st)\<lparr>journal := journal st @ [Invoked h msg]\<rparr>,
             callback msg))
     else if get_prop msg ''result'' \<noteq> Undefined \<and> i \<noteq> [] then
       (finish i (Resolved (get_prop msg ''result''))
          (console_log (SuccessResponse (JStr i) (get_prop msg ''result'')) st), None)
     else if truthy (get_prop msg ''error'') \<and> i \<noteq> [] then
       (case createFriendlyError rt (get_prop msg ''error'') of
          Inl ex \<Rightarrow> (console_log (ErrorResponse (JStr i) (get_prop msg ''error'')) st, Some ex)
        | Inr friendlyError \<Rightarrow>
            (finish i (Rejected friendlyError)
               (console_log (ErrorResponse (JStr i) (get_prop msg ''error'')) st), None))
     else (st, None))"
  by (simp add: on_message_def assms map_get_def map_delete_def finish_def Let_def
        cong: if_cong option.case_cong sum.case_cong)

lemma on_message_shape:
  "sans_console (fst (on_message rt msg st)) = sans_console st
   \<or> (\<exists>i h cb. get_prop msg ''event'' = JStr ''progress'' \<and> get_prop msg ''id'' = JStr i
        \<and> progressCallbacks st i = Some (h, cb)
        \<and> sans_console (fst (on_message rt msg st))
            = sans_console (st\<lparr>journal := journal st @ [Invoked h msg]\<rparr>))
   \<or> (\<exists>i out. get_prop msg ''id'' = JStr i
        \<and> (out = Resolved (get_prop msg ''result'') \<and> get_prop msg ''result'' \<noteq> Undefined
            \<or> (\<exists>fe. createFriendlyError rt (get_prop msg ''error'') = Inr fe \<and> out = Rejected fe
                  \<and> truthy (get_prop msg ''error'')))
        \<and> sans_console (fst (on_message rt msg st)) = sans_console (finish i out st))"
proof (cases "\<exists>i. get_prop msg ''id'' = JStr i")
  case False
  then have nokey: "\<forall>i. get_prop msg ''id'' \<noteq> JStr i"
    by simp
  have "sans_console (fst (on_message rt msg st)) = sans_console st"
    by (simp add: on_message_def Let_def map_get_no_string [OF nokey]
          map_delete_no_string [OF nokey] split: sum.splits)
  then show ?thesis by simp
next
  case True
  then obtain i where i: "get_prop msg ''id'' = JStr i" by blast
  show ?thesis
    unfolding on_message_string_id [OF i] using i
    by (simp split: sum.splits option.splits prod.splits) blast
qed

lemma on_line_shape:
  "sans_console (on_line rt l st) = sans_console st
   \<or> (\<exists>msg i h cb. JSON_parse rt l = Some msg
        \<and> get_prop msg ''event'' = JStr ''progress'' \<and> get_prop msg ''id'' = JStr i
        \<and> progressCallbacks st i = Some (h, cb)
        \<and> sans_console (on_line rt l st)
            = sans_console (st\<lparr>journal := journal st @ [Invoked h msg]\<rparr>))
   \<or> (\<exists>msg i out. JSON_parse rt l = Some msg \<and> get_prop msg ''id'' = JStr i
        \<and> (out = Resolved (get_prop msg ''result'') \<and> get_prop msg ''result'' \<noteq> Undefined
            \<or> (\<exists>fe. createFriendlyError rt (get_prop msg ''error'') = Inr fe \<and> out = Rejected fe
                  \<and> truthy (get_prop msg ''error'')))
        \<and> sans_console (on_line rt l st) = sans_console (finish i out st))"
proof (cases "JSON_parse rt l")
  case None
  then show ?thesis by (simp add: on_line_def Let_def)
next
  case (Some msg)
  have "sans_console (on_line rt l st)
          = sans_console (fst (on_message rt msg (console_log (RawResponse l) st)))"
    using Some by (simp add: on_line_def Let_def split: prod.splits option.splits)
  then show ?thesis
    using on_message_shape [of rt msg "console_log (RawResponse l) st"] Some
    by auto
qed

subsection \<open>The invariant holds in every run\<close>

lemma inv_init: "consistent (init available)"
  by (simp add: consistent_def init_def invoked_while_pending_def)

lemma owns_call:
  "owns st h i \<Longrightarrow> owns (st\<lparr>issued := issued st @ [j]\<rparr>) h i"
  by (simp add: owns_def nth_append)

lemma owns_new: "owns (st\<lparr>issued := issued st @ [j]\<rparr>) (length (issued st)) j"
  by (simp add: owns_def)

lemma inv_issue:
  assumes "consistent st"
  shows "consistent (st\<lparr>issued := issued st @ [j]\<rparr>)"
proof (rule invI)
  fix i h
  assume "pending (st\<lparr>issued := issued st @ [j]\<rparr>) i = Some h"
  then show "owns (st\<lparr>issued := issued st @ [j]\<rparr>) h i
      \<and> settled_in (journal (st\<lparr>issued := issued st @ [j]\<rparr>)) h = None"
    using inv_pendingD [OF assms, of i h] by (simp add: owns_call)
next
  fix i h cb
  assume "progressCallbacks (st\<lparr>issued := issued st @ [j]\<rparr>) i = Some (h, cb)"
  then show "owns (st\<lparr>issued := issued st @ [j]\<rparr>) h i
      \<and> settled_in (journal (st\<lparr>issued := issued st @ [j]\<rparr>)) h = None"
    using inv_progressD [OF assms, of i h cb] by (simp add: owns_call)
next
  fix h i d
  assume "(h, i, d) \<in> set (waiting (st\<lparr>issued := issued st @ [j]\<rparr>))"
  then show "owns (st\<lparr>issued := issued st @ [j]\<rparr>) h i"
    using inv_waitingD [OF assms, of h i d] by (simp add: owns_call)
next
  fix h i
  assume "writeLock (st\<lparr>issued := issued st @ [j]\<rparr>) = Writing h i"
  then show "owns (st\<lparr>issued := issued st @ [j]\<rparr>) h i"
    using inv_writingD [OF assms, of h i] by (simp add: owns_call)
next
  fix h
  assume "settled_in (journal (st\<lparr>issued := issued st @ [j]\<rparr>)) h \<noteq> None"
  then show "h < length (issued (st\<lparr>issued := issued st @ [j]\<rparr>))"
    using inv_settledD [OF assms, of h] by (auto simp: less_Suc_eq)
next
  show "invoked_while_pending (journal (st\<lparr>issued := issued st @ [j]\<rparr>))"
    using inv_journalD [OF assms] by simp
qed

lemma inv_fresh_unsettled:
  "consistent st \<Longrightarrow> settled_in (journal st) (length (issued st)) = None"
  using inv_settledD by fastforce

lemma inv_register_progress:
  assumes "consistent st" "owns st h i" "settled_in (journal st) h = None"
  shows "consistent (st\<lparr>progressCallbacks := (progressCallbacks st)(i \<mapsto> (h, cb))\<rparr>)"
proof (rule invI)
  show "invoked_while_pending (journal (st\<lparr>progressCallbacks := (progressCallbacks st)(i \<mapsto> (h, cb))\<rparr>))"
    using inv_journalD [OF assms(1)] by simp
qed (use assms in \<open>auto dest: inv_pendingD inv_progressD inv_waitingD inv_writingD inv_settledD
       split: if_splits\<close>)

lemma inv_register_pending:
  assumes "consistent st" "owns st h i" "settled_in (journal st) h = None"
  shows "consistent (st\<lparr>pending := (pending st)(i \<mapsto> h)\<rparr>)"
proof (rule invI)
  show "invoked_while_pending (journal (st\<lparr>pending := (pending st)(i \<mapsto> h)\<rparr>))"
    using inv_journalD [OF assms(1)] by simp
qed (use assms in \<open>auto dest: inv_pendingD inv_progressD inv_waitingD inv_writingD inv_settledD
       split: if_splits\<close>)

lemma inv_writeWithLock:
  assumes "consistent st" "owns st h i"
  shows "consistent (writeWithLock h i data st)"
proof (rule invI)
  show "invoked_while_pending (journal (writeWithLock h i data st))"
    using inv_journalD [OF assms(1)] by (simp add: writeWithLock_def)
qed (use assms in \<open>auto dest: inv_pendingD inv_progressD inv_waitingD inv_writingD inv_settledD
       simp: writeWithLock_def owns_def\<close>)

lemma inv_call:
  assumes "consistent st"
  shows "consistent (fst (call rt i method params onProgress st))"
proof -
  let ?h = "length (issued st)"
  let ?st1 = "console_log (CallingMethod method i) (st\<lparr>issued := issued st @ [i]\<rparr>)"
  have 1: "consistent ?st1" using inv_issue [OF assms] by simp
  have o: "owns ?st1 ?h i" by (simp add: owns_new)
  have u: "settled_in (journal ?st1) ?h = None"
    using inv_fresh_unsettled [OF assms] by simp
  define st2 where "st2 = (case onProgress of
                  Some cb \<Rightarrow> ?st1\<lparr>progressCallbacks := (progressCallbacks ?st1)(i \<mapsto> (?h, cb))\<rparr>
                | None \<Rightarrow> ?st1)"
  have 2: "consistent st2" "owns st2 ?h i" "settled_in (journal st2) ?h = None"
    using 1 o u inv_register_progress [OF 1 o u]
    by (auto simp: st2_def split: option.splits)
  show ?thesis
  proof (cases "JSON_stringify rt i method params")
    case None
    then show ?thesis using 2 by (simp add: call_def Let_def st2_def)
  next
    case (Some s)
    have 3: "consistent (st2\<lparr>pending := (pending st2)(i \<mapsto> ?h)\<rparr>)"
      using inv_register_pending [OF 2] .
    have "consistent (writeWithLock ?h i (s @ [newline])
                 (console_log SendingRequest (st2\<lparr>pending := (pending st2)(i \<mapsto> ?h)\<rparr>)))"
      by (rule inv_writeWithLock) (use 2 3 in simp_all)
    with Some show ?thesis by (simp add: call_def Let_def st2_def)
  qed
qed

lemma inv_chain:
  assumes "consistent st" "\<And>h i. k = Writing h i \<Longrightarrow> owns st h i" "set w \<subseteq> set (waiting st)"
  shows "consistent (st\<lparr>waiting := w, writeLock := k\<rparr>)"
proof (rule invI)
  show "invoked_while_pending (journal (st\<lparr>waiting := w, writeLock := k\<rparr>))"
    using inv_journalD [OF assms(1)] by simp
qed (use assms in \<open>auto dest: inv_pendingD inv_progressD inv_waitingD inv_settledD\<close>)

lemma inv_wire [simp]: "consistent (st\<lparr>wire := w\<rparr>) = consistent st"
  by (simp add: consistent_def)

lemma inv_write_turn:
  assumes "consistent st"
  shows "consistent (write_turn st)"
proof (cases "waiting st")
  case Nil
  then show ?thesis using assms by (simp add: write_turn_def)
next
  case (Cons w rest)
  obtain h i data where w: "w = (h, i, data)" by (cases w)
  have o: "owns st h i" using assms Cons w inv_waitingD by fastforce
  have sub: "set rest \<subseteq> set (waiting st)" using Cons by auto
  show ?thesis
  proof (cases "writeLock st")
    case Idle
    have a: "consistent (st\<lparr>waiting := rest, writeLock := Failed not_available\<rparr>)"
      by (rule inv_chain [OF assms _ sub]) simp
    have b: "consistent (st\<lparr>waiting := rest, writeLock := Writing h i\<rparr>)"
      by (rule inv_chain [OF assms _ sub]) (use o in simp)
    show ?thesis
      using Cons w Idle inv_write_failed [OF a, of h i not_available] o b
      by (simp add: write_turn_def)
  next
    case (Failed err)
    have "consistent (st\<lparr>waiting := rest, writeLock := writeLock st\<rparr>)"
      by (rule inv_chain [OF assms _ sub]) (use Failed in simp)
    then have a: "consistent (st\<lparr>waiting := rest\<rparr>)"
      by simp
    show ?thesis
      using Cons w Failed inv_write_failed [OF a, of h i err] o
      by (simp add: write_turn_def)
  qed (use assms Cons w in \<open>simp_all add: write_turn_def\<close>)
qed

lemma inv_write_callback:
  assumes "consistent st"
  shows "consistent (write_callback err st)"
proof (cases "writeLock st")
  case (Writing h i)
  have o: "owns st h i" using assms Writing inv_writingD by blast
  have a: "consistent (st\<lparr>waiting := waiting st, writeLock := k\<rparr>)" if "\<And>h i. k \<noteq> Writing h i" for k
    by (rule inv_chain [OF assms]) (use that in auto)
  show ?thesis
  proof (cases err)
    case None
    then show ?thesis using Writing a [of Flushing] by (simp add: write_callback_def)
  next
    case (Some e)
    have "consistent (console_log (WriteError e) (st\<lparr>writeLock := Failed e\<rparr>))"
      using a [of "Failed e"] by simp
    from inv_write_failed [OF this, of h i e] o Some Writing show ?thesis
      by (simp add: write_callback_def)
  qed
qed (use assms in \<open>simp_all add: write_callback_def\<close>)

lemma inv_flush_timer:
  assumes "consistent st"
  shows "consistent (flush_timer st)"
proof (cases "writeLock st")
  case Flushing
  have "consistent (st\<lparr>waiting := waiting st, writeLock := Idle\<rparr>)"
    by (rule inv_chain [OF assms]) auto
  with Flushing show ?thesis by (simp add: flush_timer_def)
qed (use assms in \<open>simp_all add: flush_timer_def\<close>)

lemma inv_on_line:
  assumes "consistent st"
  shows "consistent (on_line rt l st)"
proof -
  consider (same) "sans_console (on_line rt l st) = sans_console st"
    | (invoke) i h cb msg where "progressCallbacks st i = Some (h, cb)"
        "sans_console (on_line rt l st)
           = sans_console (st\<lparr>journal := journal st @ [Invoked h msg]\<rparr>)"
    | (finish) i out where "sans_console (on_line rt l st) = sans_console (finish i out st)"
    using on_line_shape [of rt l st] by blast
  then show ?thesis
  proof cases
    case same
    then show ?thesis using assms inv_cong by metis
  next
    case invoke
    then show ?thesis using inv_invoke [OF assms] inv_cong by metis
  next
    case finish
    then show ?thesis using inv_finish [OF assms] inv_cong by metis
  qed
qed

lemma inv_step: "consistent st \<Longrightarrow> consistent (step rt e st)"
  by (cases e) (simp_all add: inv_call inv_on_line inv_write_turn inv_write_callback inv_flush_timer)

lemma run_append: "run rt (es @ es') st = run rt es' (run rt es st)"
  by (induction es arbitrary: st) simp_all

lemma inv_run: "consistent st \<Longrightarrow> consistent (run rt es st)"
  by (induction es arbitrary: st) (simp_all add: inv_step)

lemma inv_reachable: "consistent (run rt es (init available))"
  by (simp add: inv_run inv_init)

subsection \<open>The console has no influence\<close>

lemma sans_console_eqD:
  "sans_console a = sans_console b \<Longrightarrow> a = b\<lparr>console := console a\<rparr>"
  by (cases a, cases b) (simp add: sans_console_def)

lemma console_log_update: "console_log l (st\<lparr>console := c\<rparr>) = st\<lparr>console := c @ [l]\<rparr>"
  by (simp add: console_log_def)

lemma sans_console_finish [simp]:
  "sans_console (finish i out (st\<lparr>console := c\<rparr>)) = sans_console (finish i out st)"
  by (simp add: finish_def sans_console_def settle_def Let_def split: option.splits)

lemma sans_console_journal [simp]:
  "sans_console (st\<lparr>console := c, journal := j\<rparr>) = sans_console (st\<lparr>journal := j\<rparr>)"
  by (simp add: sans_console_def)

lemma on_message_console:
  "sans_console (fst (on_message rt msg (st\<lparr>console := c\<rparr>))) = sans_console (fst (on_message rt msg st))
   \<and> snd (on_message rt msg (st\<lparr>console := c\<rparr>)) = snd (on_message rt msg st)"
proof (cases "\<exists>i. get_prop msg ''id'' = JStr i")
  case False
  then have nokey: "\<forall>i. get_prop msg ''id'' \<noteq> JStr i"
    by simp
  show ?thesis
    by (simp add: on_message_def Let_def map_get_no_string [OF nokey]
          map_delete_no_string [OF nokey] split: sum.splits)
next
  case True
  then obtain i where i: "get_prop msg ''id'' = JStr i" by blast
  show ?thesis
    unfolding on_message_string_id [OF i]
    by (simp add: console_log_update split: sum.splits option.splits prod.splits)
qed

lemma on_line_console:
  "sans_console (on_line rt l (st\<lparr>console := c\<rparr>)) = sans_console (on_line rt l st)"
proof (cases "JSON_parse rt l")
  case None
  then show ?thesis by (simp add: on_line_def Let_def)
next
  case (Some msg)
  have "sans_console (on_line rt l s)
          = sans_console (fst (on_message rt msg (console_log (RawResponse l) s)))" for s
    using Some by (simp add: on_line_def Let_def split: prod.splits option.splits)
  then show ?thesis
    using on_message_console [where rt = rt and msg = msg and st = st
        and c = "console st @ [RawResponse l]"]
      on_message_console [where rt = rt and msg = msg and st = st and c = "c @ [RawResponse l]"]
    by (simp add: console_log_def)
qed

lemma call_console:
  "sans_console (fst (call rt i m p cb (st\<lparr>console := c\<rparr>))) = sans_console (fst (call rt i m p cb st))"
  by (simp add: call_def Let_def sans_console_def console_log_def writeWithLock_def
        split: option.splits)

lemma write_turn_console:
  "sans_console (write_turn (st\<lparr>console := c\<rparr>)) = sans_console (write_turn st)"
  by (simp add: write_turn_def write_failed_alt split: list.splits chain.splits)
     (simp add: sans_console_def console_log_def settle_def)

lemma write_callback_console:
  "sans_console (write_callback err (st\<lparr>console := c\<rparr>)) = sans_console (write_callback err st)"
  by (simp add: write_callback_def write_failed_alt split: chain.splits option.splits)
     (simp add: sans_console_def console_log_def settle_def)

lemma flush_timer_console:
  "sans_console (flush_timer (st\<lparr>console := c\<rparr>)) = sans_console (flush_timer st)"
  by (simp add: flush_timer_def sans_console_def split: chain.splits)

lemma step_console:
  "sans_console (step rt e (st\<lparr>console := c\<rparr>)) = sans_console (step rt e st)"
  by (cases e)
    (simp_all add: call_console on_line_console write_turn_console write_callback_console
       flush_timer_console)

lemma step_sans_console:
  "sans_console a = sans_console b \<Longrightarrow> sans_console (step rt e a) = sans_console (step rt e b)"
  using sans_console_eqD [of a b] step_console [where rt = rt and e = e and st = b and c = "console a"]
  by simp

lemma run_sans_console:
  "sans_console a = sans_console b \<Longrightarrow> sans_console (run rt es a) = sans_console (run rt es b)"
proof (induction es arbitrary: a b)
  case Nil
  then show ?case by simp
next
  case (Cons e es)
  have "sans_console (step rt e a) = sans_console (step rt e b)"
    using Cons.prems by (rule step_sans_console)
  from Cons.IH [OF this] show ?case by simp
qed

lemma sans_console_sel [simp]:
  "pending (sans_console st) = pending st"
  "progressCallbacks (sans_console st) = progressCallbacks st"
  "journal (sans_console st) = journal st"
  "wire (sans_console st) = wire st"
  "waiting (sans_console st) = waiting st"
  "writeLock (sans_console st) = writeLock st"
  "issued (sans_console st) = issued st"
  "enqueued (sans_console st) = enqueued st"
  "proc_stdin (sans_console st) = proc_stdin st"
  by (simp_all add: sans_console_def)

lemma sans_console_fields:
  assumes "sans_console a = sans_console b"
  shows "pending a = pending b" and "progressCallbacks a = progressCallbacks b"
    and "journal a = journal b" and "wire a = wire b" and "waiting a = waiting b"
    and "writeLock a = writeLock b" and "issued a = issued b" and "enqueued a = enqueued b"
    and "proc_stdin a = proc_stdin b"
  using arg_cong [OF assms, of pending] arg_cong [OF assms, of progressCallbacks]
    arg_cong [OF assms, of journal] arg_cong [OF assms, of wire] arg_cong [OF assms, of waiting]
    arg_cong [OF assms, of writeLock] arg_cong [OF assms, of issued]
    arg_cong [OF assms, of enqueued] arg_cong [OF assms, of proc_stdin]
  by simp_all

subsection \<open>Lines that are not JSON\<close>

text \<open>
  C8: when \<open>JSON.parse\<close> throws on a line, the handler prints the line and the failure and
  does nothing else: the state is the old one with two more console lines, and after any
  further events both tables and the journal of settlements are what they would have been
  had the line never arrived.
\<close>

theorem invalid_json_ignored:
  assumes "JSON_parse rt line = None"
  shows "on_line rt line st
           = st\<lparr>console := console st @ [RawResponse line, FailedToParse line SyntaxError]\<rparr>
    \<and> (\<forall>evs. pending (run rt evs (on_line rt line st)) = pending (run rt evs st)
           \<and> progressCallbacks (run rt evs (on_line rt line st))
               = progressCallbacks (run rt evs st)
           \<and> journal (run rt evs (on_line rt line st)) = journal (run rt evs st))"
proof -
  have eq: "on_line rt line st
       = st\<lparr>console := console st @ [RawResponse line, FailedToParse line SyntaxError]\<rparr>"
    using assms by (simp add: on_line_def Let_def console_log_def)
  then have "sans_console (on_line rt line st) = sans_console st"
    by simp
  then have "sans_console (run rt evs (on_line rt line st)) = sans_console (run rt evs st)" for evs
    by (rule run_sans_console)
  then show ?thesis
    using eq sans_console_fields(1-3) by blast
qed

theorem invalid_json_ignored_witness:
  "JSON_parse sample ''ffmpeg: warming up'' = None
   \<and> console (on_line sample ''ffmpeg: warming up'' (init True))
       = [RawResponse ''ffmpeg: warming up'', FailedToParse ''ffmpeg: warming up'' SyntaxError]
   \<and> journal (run sample [Call ''u1'' ''transcribe'' (Some ''{}'') None, Line ''result u1'']
                (on_line sample ''ffmpeg: warming up'' (init True)))
       = [Settled 0 (Resolved (JNum 1))]"
proof -
  have p: "JSON_parse sample ''ffmpeg: warming up'' = None"
    by (simp add: sample_def sample_parse_def)
  have b: "journal (run sample [Call ''u1'' ''transcribe'' (Some ''{}'') None, Line ''result u1'']
             (init True)) = [Settled 0 (Resolved (JNum 1))]"
    by (simp add: sample_def sample_stringify_def sample_parse_def init_def call_def Let_def
          console_log_def writeWithLock_def on_line_def on_message_def map_get_def
          map_delete_def settle_def)
  have c: "console (init True) = []"
    by (simp add: init_def)
  note th = invalid_json_ignored [OF p, of "init True"]
  have x: "console (on_line sample ''ffmpeg: warming up'' (init True))
       = console (init True) @ [RawResponse ''ffmpeg: warming up'',
           FailedToParse ''ffmpeg: warming up'' SyntaxError]"
    using conjunct1 [OF th] by simp
  have y: "journal (run sample [Call ''u1'' ''transcribe'' (Some ''{}'') None, Line ''result u1'']
                (on_line sample ''ffmpeg: warming up'' (init True)))
       = journal (run sample [Call ''u1'' ''transcribe'' (Some ''{}'') None, Line ''result u1'']
                (init True))"
    using conjunct2 [OF th] by blast
  from p b c x y show ?thesis
    by (simp only: append_Nil simp_thms)
qed

subsection \<open>A progress callback that throws\<close>

text \<open>
  C10: when the callback registered for the identifier of a progress message throws, the
  \<open>catch\<close> of the handler takes the exception. The handler returns the old state with the
  invocation recorded and three more console lines: no promise is settled, no table entry is
  added or removed, and every later event is processed as it is after an invocation that
  returned (the console apart).
\<close>

theorem throwing_callback_is_caught:
  assumes "JSON_parse rt line = Some msg"
    and "get_prop msg ''event'' = JStr ''progress''"
    and "get_prop msg ''id'' = JStr i" and "i \<noteq> []"
    and "progressCallbacks st i = Some (h, cb)"
    and "cb msg = Some ex"
  shows "on_line rt line st
           = st\<lparr>journal := journal st @ [Invoked h msg],
                 console := console st @ [RawResponse line, ProgressEvent msg,
                                           FailedToParse line ex]\<rparr>
    \<and> (\<forall>evs. sans_console (run rt evs (on_line rt line st))
              = sans_console (run rt evs (st\<lparr>journal := journal st @ [Invoked h msg]\<rparr>)))"
proof -
  have "msg \<noteq> JNull" "msg \<noteq> Undefined"
    using assms(2) by auto
  then have m: "on_message rt msg (console_log (RawResponse line) st)
      = ((console_log (ProgressEvent msg) (console_log (RawResponse line) st))
           \<lparr>journal := journal st @ [Invoked h msg]\<rparr>, Some ex)"
    using assms by (simp add: on_message_string_id [OF assms(3)])
  have eq: "on_line rt line st
           = st\<lparr>journal := journal st @ [Invoked h msg],
                 console := console st @ [RawResponse line, ProgressEvent msg,
                                           FailedToParse line ex]\<rparr>"
    using assms(1) by (simp add: on_line_def Let_def m)
  then have "sans_console (on_line rt line st)
      = sans_console (st\<lparr>journal := journal st @ [Invoked h msg]\<rparr>)"
    by (simp add: sans_console_def)
  then have "sans_console (run rt evs (on_line rt line st))
      = sans_console (run rt evs (st\<lparr>journal := journal st @ [Invoked h msg]\<rparr>))" for evs
    by (rule run_sans_console)
  with eq show ?thesis by blast
qed


lemma sample_progress_line:
  "JSON_parse sample ''progress u1''
     = Some (JObj [(''event'', JStr ''progress''), (''id'', JStr ''u1''),
                   (''status'', JStr ''decoding''), (''progress'', JNum (1 / 2))])"
  by (simp add: sample_def sample_parse_def)

lemma sample_one_call:
  "fst (call sample ''u1'' ''transcribe'' (Some ''{}'') (Some cb) (init True))
     = \<lparr> proc_stdin = True, pending = [''u1'' \<mapsto> 0],
         progressCallbacks = [''u1'' \<mapsto> (0, cb)], writeLock = Idle,
         waiting = [(0, ''u1'', ''{id:u1,method:transcribe,params:{}}'' @ [newline])],
         wire = [], issued = [''u1''],
         enqueued = [''{id:u1,method:transcribe,params:{}}'' @ [newline]],
         journal = [],
         console = [CallingMethod ''transcribe'' ''u1'', SendingRequest] \<rparr>"
  by (simp add: sample_def sample_stringify_def init_def call_def Let_def console_log_def
        writeWithLock_def)

theorem throwing_callback_is_caught_witness:
  "(let msg = JObj [(''event'', JStr ''progress''), (''id'', JStr ''u1''),
                    (''status'', JStr ''decoding''), (''progress'', JNum (1 / 2))];
        st = on_line sample ''progress u1''
               (run sample [Call ''u1'' ''transcribe'' (Some ''{}'') (Some faulty)] (init True))
    in journal st = [Invoked 0 msg] \<and> pending st ''u1'' = Some 0
       \<and> console st = [CallingMethod ''transcribe'' ''u1'', SendingRequest,
                         RawResponse ''progress u1'', ProgressEvent msg,
                         FailedToParse ''progress u1'' (Thrown ''boom'')]
       \<and> journal (run sample [Line ''result u1''] st)
           = [Invoked 0 msg, Settled 0 (Resolved (JNum 1))])"
proof -
  let ?msg = "JObj [(''event'', JStr ''progress''), (''id'', JStr ''u1''),
                    (''status'', JStr ''decoding''), (''progress'', JNum (1 / 2))]"
  let ?st0 = "run sample [Call ''u1'' ''transcribe'' (Some ''{}'') (Some faulty)] (init True)"
  have th: "on_line sample ''progress u1'' ?st0
           = ?st0\<lparr>journal := journal ?st0 @ [Invoked 0 ?msg],
                 console := console ?st0 @ [RawResponse ''progress u1'', ProgressEvent ?msg,
                                           FailedToParse ''progress u1'' (Thrown ''boom'')]\<rparr>"
    using throwing_callback_is_caught [of sample "''progress u1''" ?msg "''u1''" ?st0 0 faulty
        "Thrown ''boom''"]
    by (simp add: sample_progress_line sample_one_call faulty_def)
  have r: "journal (run sample [Line ''result u1'']
             (?st0\<lparr>journal := journal ?st0 @ [Invoked 0 ?msg],
                 console := console ?st0 @ [RawResponse ''progress u1'', ProgressEvent ?msg,
                                           FailedToParse ''progress u1'' (Thrown ''boom'')]\<rparr>))
           = [Invoked 0 ?msg, Settled 0 (Resolved (JNum 1))]"
    by (simp add: sample_one_call)
       (simp add: sample_def sample_parse_def on_line_def on_message_def Let_def console_log_def
          map_get_def map_delete_def settle_def)
  show ?thesis
    unfolding Let_def th using r by (simp add: sample_one_call)
qed

subsection \<open>Error messages\<close>

text \<open>
  C5, as the specification states it: every error-shaped message whose identifier is in the
  correlation table rejects the pending request and removes both table entries. The handler
  tests \<open>msg.error && msg.id\<close>, and the empty string is falsy: a message whose error text
  is empty settles nothing and leaves the request in the table.
\<close>

theorem error_message_with_empty_text_counterexample:
  "JSON_parse sample ''empty error u1'' = Some (JObj [(''id'', JStr ''u1''), (''error'', JStr [])])
   \<and> pending (run sample [Call ''u1'' ''transcribe'' (Some ''{}'') (Some quiet)] (init True)) ''u1''
       = Some 0
   \<and> pending (run sample [Call ''u1'' ''transcribe'' (Some ''{}'') (Some quiet),
                           Line ''empty error u1''] (init True)) ''u1'' = Some 0
   \<and> journal (run sample [Call ''u1'' ''transcribe'' (Some ''{}'') (Some quiet),
                           Line ''empty error u1''] (init True)) = []"
  by (simp add: sample_def sample_stringify_def sample_parse_def init_def call_def Let_def
        console_log_def writeWithLock_def on_line_def on_message_def map_get_def map_delete_def)

text \<open>
  C5, amended: in every run, a message that is not progress-shaped, has no \<open>result\<close>, and
  has a non-empty identifier found in the correlation table and a non-empty error string is
  dispatched by classifying the string, rejecting the pending request with the classified
  error, and removing the identifier from both tables.
\<close>

theorem error_message_rejects_and_forgets:
  assumes "st = run rt evs (init available)"
    and "JSON_parse rt line = Some msg"
    and "get_prop msg ''event'' \<noteq> JStr ''progress''"
    and "get_prop msg ''result'' = Undefined"
    and "get_prop msg ''id'' = JStr i" and "i \<noteq> []"
    and "get_prop msg ''error'' = JStr s" and "s \<noteq> []"
    and "pending st i = Some h"
  shows "\<exists>friendlyError. createFriendlyError rt (JStr s) = Inr friendlyError
    \<and> on_line rt line st
        = st\<lparr>pending := (pending st)(i := None),
              progressCallbacks := (progressCallbacks st)(i := None),
              journal := journal st @ [Settled h (Rejected friendlyError)],
              console := console st @ [RawResponse line, ErrorResponse (JStr i) (JStr s)]\<rparr>"
proof -
  have c: "consistent st"
    using assms(1) by (simp add: inv_reachable)
  then have u: "settled_in (journal st) h = None"
    using assms(9) inv_pendingD by blast
  have "msg \<noteq> JNull" "msg \<noteq> Undefined"
    using assms(5) by auto
  moreover obtain fe where fe: "createFriendlyError rt (JStr s) = Inr fe"
    using createFriendlyError_total by blast
  ultimately have m: "on_message rt msg (console_log (RawResponse line) st)
      = (finish i (Rejected fe)
           (console_log (ErrorResponse (JStr i) (JStr s)) (console_log (RawResponse line) st)),
         None)"
    using assms by (simp add: on_message_string_id [OF assms(5)])
  show ?thesis
    using assms(2,9) u fe
    by (simp add: on_line_def Let_def m)
       (simp add: finish_def settle_def console_log_def)
qed

theorem error_message_rejects_and_forgets_witness:
  "(let st = run sample [Call ''u1'' ''transcribe'' (Some ''{}'') (Some quiet), Line ''error u1'']
               (init True)
    in pending st ''u1'' = None \<and> progressCallbacks st ''u1'' = None
       \<and> journal st = [Settled 0 (Rejected \<lparr> name = ''API_KEY_INVALID'',
             message = ''Invalid OpenAI API key. Please check the key in settings.'' \<rparr>)])"
proof -
  let ?st0 = "run sample [Call ''u1'' ''transcribe'' (Some ''{}'') (Some quiet)] (init True)"
  let ?msg = "JObj [(''id'', JStr ''u1''), (''error'', JStr ''401 Unauthorized'')]"
  have p: "JSON_parse sample ''error u1'' = Some ?msg"
    by (simp add: sample_def sample_parse_def)
  have f: "createFriendlyError sample (JStr ''401 Unauthorized'')
       = Inr \<lparr> name = ''API_KEY_INVALID'',
               message = ''Invalid OpenAI API key. Please check the key in settings.'' \<rparr>"
    by (simp add: createFriendlyError_string classify_def friendly_def)
  have "pending ?st0 ''u1'' = Some 0"
    by (simp add: sample_one_call)
  from error_message_rejects_and_forgets [OF refl p _ _ _ _ _ _ this, of "''401 Unauthorized''"]
  have "on_line sample ''error u1'' ?st0
        = ?st0\<lparr>pending := (pending ?st0)(''u1'' := None),
              progressCallbacks := (progressCallbacks ?st0)(''u1'' := None),
              journal := journal ?st0 @ [Settled 0 (Rejected \<lparr> name = ''API_KEY_INVALID'',
               message = ''Invalid OpenAI API key. Please check the key in settings.'' \<rparr>)],
              console := console ?st0 @ [RawResponse ''error u1'',
                ErrorResponse (JStr ''u1'') (JStr ''401 Unauthorized'')]\<rparr>"
    by (simp add: f)
  then show ?thesis
    by (simp add: sample_one_call)
qed

subsection \<open>Settlements\<close>





lemma journal_write_failed: "journal (write_failed h i err st) = journal (settle h (Rejected err) st)"
  using arg_cong [OF write_failed_alt, of journal] by (simp add: settle_def)














subsection \<open>Progress callbacks\<close>

lemma unsubscribed_progress_dropped:
  assumes "JSON_parse rt l = Some msg"
    and "get_prop msg ''event'' = JStr ''progress''"
    and "get_prop msg ''id'' = JStr i"
    and "progressCallbacks st i = None"
  shows "sans_console (on_line rt l st) = sans_console st"
proof -
  have n: "msg \<noteq> JNull" "msg \<noteq> Undefined"
    using assms(2) by auto
  have "sans_console (fst (on_message rt msg (console_log (RawResponse l) st))) = sans_console st"
    using assms n by (simp add: on_message_string_id [OF assms(3)] split: sum.splits)
  moreover have "sans_console (on_line rt l st)
          = sans_console (fst (on_message rt msg (console_log (RawResponse l) st)))"
    using assms(1) by (simp add: on_line_def Let_def split: prod.splits option.splits)
  ultimately show ?thesis by simp
qed

lemma settled_unsubscribed:
  assumes "consistent st" and "distinct (issued st)"
    and "h < length (issued st)" and "settled_in (journal st) h \<noteq> None"
  shows "progressCallbacks st (issued st ! h) = None"
proof (rule ccontr)
  assume "progressCallbacks st (issued st ! h) \<noteq> None"
  then obtain h' cb where s: "progressCallbacks st (issued st ! h) = Some (h', cb)"
    by auto
  from inv_progressD [OF assms(1) s]
  have "h' < length (issued st)" "issued st ! h' = issued st ! h"
    and u: "settled_in (journal st) h' = None"
    by (simp_all add: owns_def)
  with assms(2,3) have "h' = h"
    by (simp add: nth_eq_iff_index_eq)
  with u assms(4) show False by simp
qed

text \<open>
  C2: in every run, each invocation of a progress callback in the journal stands before any
  settlement of the promise of its request; no subscription is left in the table for a
  request whose promise is settled, so that, identifiers being distinct, nothing is
  subscribed under the identifier of a settled request; and a progress-shaped message whose
  identifier has no subscription changes nothing but the console: no callback runs, nothing
  is thrown.
\<close>

theorem progress_only_while_pending:
  assumes "st = run rt evs (init available)"
  shows "invoked_while_pending (journal st)
    \<and> (\<forall>i h cb. progressCallbacks st i = Some (h, cb) \<longrightarrow> settled_in (journal st) h = None)
    \<and> (distinct (issued st) \<longrightarrow>
          (\<forall>h. h < length (issued st) \<and> settled_in (journal st) h \<noteq> None \<longrightarrow>
             progressCallbacks st (issued st ! h) = None))
    \<and> (\<forall>l msg i. JSON_parse rt l = Some msg \<and> get_prop msg ''event'' = JStr ''progress''
          \<and> get_prop msg ''id'' = JStr i \<and> progressCallbacks st i = None \<longrightarrow>
          sans_console (on_line rt l st) = sans_console st)"
proof -
  have c: "consistent st"
    using assms by (simp add: inv_reachable)
  show ?thesis
    using inv_journalD [OF c] inv_progressD [OF c] settled_unsubscribed [OF c]
      unsubscribed_progress_dropped
    by blast
qed

lemma sample_result_line:
  "JSON_parse sample ''result u1'' = Some (JObj [(''id'', JStr ''u1''), (''result'', JNum 1)])"
  by (simp add: sample_def sample_parse_def)

theorem progress_only_while_pending_witness:
  "(let msg = JObj [(''event'', JStr ''progress''), (''id'', JStr ''u1''),
                    (''status'', JStr ''decoding''), (''progress'', JNum (1 / 2))];
        st = run sample [Call ''u1'' ''transcribe'' (Some ''{}'') (Some quiet),
                         Line ''progress u1'', Line ''result u1''] (init True)
    in journal st = [Invoked 0 msg, Settled 0 (Resolved (JNum 1))]
       \<and> invoked_while_pending (journal st)
       \<and> progressCallbacks st ''u1'' = None
       \<and> journal (on_line sample ''progress u1'' st) = journal st)"
proof -
  let ?msg = "JObj [(''event'', JStr ''progress''), (''id'', JStr ''u1''),
                    (''status'', JStr ''decoding''), (''progress'', JNum (1 / 2))]"
  let ?evs = "[Call ''u1'' ''transcribe'' (Some ''{}'') (Some quiet),
                         Line ''progress u1'', Line ''result u1'']"
  let ?st = "run sample ?evs (init True)"
  have j: "journal ?st = [Invoked 0 ?msg, Settled 0 (Resolved (JNum 1))]"
    and k: "issued ?st = [''u1'']"
    by (simp_all add: sample_one_call)
       (simp_all add: sample_progress_line sample_result_line on_line_def on_message_def Let_def
          console_log_def map_get_def map_delete_def settle_def quiet_def)
  note th = progress_only_while_pending [OF refl, of sample ?evs True]
  have i: "invoked_while_pending (journal ?st)"
    using conjunct1 [OF th] .
  have "distinct (issued ?st)" and "0 < length (issued ?st) \<and> settled_in (journal ?st) 0 \<noteq> None"
    unfolding j k by simp_all
  from conjunct1 [OF conjunct2 [OF conjunct2 [OF th]], THEN mp, OF this(1), THEN spec,
      THEN mp, OF this(2)]
  have p: "progressCallbacks ?st ''u1'' = None"
    unfolding k by simp
  have "JSON_parse sample ''progress u1'' = Some ?msg
      \<and> get_prop ?msg ''event'' = JStr ''progress''
      \<and> get_prop ?msg ''id'' = JStr ''u1'' \<and> progressCallbacks ?st ''u1'' = None"
    using sample_progress_line p by simp
  from conjunct2 [OF conjunct2 [OF conjunct2 [OF th]], rule_format, OF this]
  have "sans_console (on_line sample ''progress u1'' ?st) = sans_console ?st" .
  then have "journal (on_line sample ''progress u1'' ?st) = journal ?st"
    by (rule sans_console_fields(3))
  with j p i show ?thesis
    unfolding Let_def by (simp only: simp_thms)
qed

subsection \<open>Write failures\<close>

lemma write_failed_effect:
  assumes "settled_in (journal st) h = None"
  shows "settled_in (journal (write_failed h i err st)) h = Some (Rejected err)"
    and "pending (write_failed h i err st) i = None"
    and "progressCallbacks (write_failed h i err st) i = None"
    and "wire (write_failed h i err st) = wire st"
    and "writeLock (write_failed h i err st) = writeLock st"
    and "waiting (write_failed h i err st) = waiting st"
  using assms
  by (simp_all add: journal_write_failed settled_in_settle)
     (simp_all add: write_failed_def Let_def)

lemma sample_writing:
  "write_turn (fst (call sample ''u1'' ''transcribe'' (Some ''{}'') (Some cb) (init True)))
     = \<lparr> proc_stdin = True, pending = [''u1'' \<mapsto> 0],
         progressCallbacks = [''u1'' \<mapsto> (0, cb)], writeLock = Writing 0 ''u1'',
         waiting = [],
         wire = [''{id:u1,method:transcribe,params:{}}'' @ [newline]], issued = [''u1''],
         enqueued = [''{id:u1,method:transcribe,params:{}}'' @ [newline]],
         journal = [],
         console = [CallingMethod ''transcribe'' ''u1'', SendingRequest, WritingToProcess] \<rparr>"
  by (simp add: sample_one_call write_turn_def console_log_def)

lemma sample_one_call_unavailable:
  "fst (call sample ''u1'' ''transcribe'' (Some ''{}'') (Some cb) (init False))
     = \<lparr> proc_stdin = False, pending = [''u1'' \<mapsto> 0],
         progressCallbacks = [''u1'' \<mapsto> (0, cb)], writeLock = Idle,
         waiting = [(0, ''u1'', ''{id:u1,method:transcribe,params:{}}'' @ [newline])],
         wire = [], issued = [''u1''],
         enqueued = [''{id:u1,method:transcribe,params:{}}'' @ [newline]],
         journal = [],
         console = [CallingMethod ''transcribe'' ''u1'', SendingRequest] \<rparr>"
  by (simp add: sample_def sample_stringify_def init_def call_def Let_def console_log_def
        writeWithLock_def)

subsection \<open>The chain of writes\<close>

lemma finish_chain [simp]:
  "wire (finish i out st) = wire st"
  "writeLock (finish i out st) = writeLock st"
  "waiting (finish i out st) = waiting st"
  "enqueued (finish i out st) = enqueued st"
  "issued (finish i out st) = issued st"
  "proc_stdin (finish i out st) = proc_stdin st"
  by (simp_all add: finish_def Let_def split: option.splits)

lemma on_line_chain [simp]:
  "wire (on_line rt l st) = wire st"
  "writeLock (on_line rt l st) = writeLock st"
  "waiting (on_line rt l st) = waiting st"
  "enqueued (on_line rt l st) = enqueued st"
  "issued (on_line rt l st) = issued st"
  "proc_stdin (on_line rt l st) = proc_stdin st"
proof -
  consider (same) "sans_console (on_line rt l st) = sans_console st"
    | (invoke) h msg where
        "sans_console (on_line rt l st)
           = sans_console (st\<lparr>journal := journal st @ [Invoked h msg]\<rparr>)"
    | (finish) i out where "sans_console (on_line rt l st) = sans_console (finish i out st)"
    using on_line_shape [of rt l st] by blast
  then have "wire (on_line rt l st) = wire st
    \<and> writeLock (on_line rt l st) = writeLock st
    \<and> waiting (on_line rt l st) = waiting st
    \<and> enqueued (on_line rt l st) = enqueued st
    \<and> issued (on_line rt l st) = issued st
    \<and> proc_stdin (on_line rt l st) = proc_stdin st"
  proof cases
    case same
    from sans_console_fields(4-9) [OF this] show ?thesis by simp
  next
    case invoke
    from sans_console_fields(4-9) [OF this] show ?thesis by simp
  next
    case finish
    from sans_console_fields(4-9) [OF this] show ?thesis by simp
  qed
  then show "wire (on_line rt l st) = wire st"
    "writeLock (on_line rt l st) = writeLock st"
    "waiting (on_line rt l st) = waiting st"
    "enqueued (on_line rt l st) = enqueued st"
    "issued (on_line rt l st) = issued st"
    "proc_stdin (on_line rt l st) = proc_stdin st"
    by simp_all
qed

lemma write_failed_chain [simp]:
  "wire (write_failed h i err st) = wire st"
  "writeLock (write_failed h i err st) = writeLock st"
  "waiting (write_failed h i err st) = waiting st"
  "enqueued (write_failed h i err st) = enqueued st"
  "issued (write_failed h i err st) = issued st"
  "proc_stdin (write_failed h i err st) = proc_stdin st"
  by (simp_all add: write_failed_def Let_def)

lemma call_chain [simp]:
  "wire (fst (call rt i m p cb st)) = wire st"
  "writeLock (fst (call rt i m p cb st)) = writeLock st"
  "proc_stdin (fst (call rt i m p cb st)) = proc_stdin st"
  by (simp_all add: call_def Let_def writeWithLock_def split: option.splits)

lemma failed_step:
  assumes "writeLock st = Failed err"
  shows "writeLock (step rt e st) = Failed err \<and> wire (step rt e st) = wire st"
  using assms
  by (cases e)
     (simp_all add: write_turn_def write_callback_def flush_timer_def split: list.splits)

lemma failed_run:
  assumes "writeLock st = Failed err"
  shows "writeLock (run rt es st) = Failed err \<and> wire (run rt es st) = wire st"
  using assms
proof (induction es arbitrary: st)
  case Nil
  then show ?case by simp
next
  case (Cons e es)
  from failed_step [OF Cons.prems, of rt e] Cons.IH [of "step rt e st"]
  show ?case by simp
qed



lemma sample_two_calls_writing:
  "write_turn (fst (call sample ''u2'' ''transcribe'' (Some ''{}'') None
      (fst (call sample ''u1'' ''transcribe'' (Some ''{}'') (Some cb) (init True)))))
     = \<lparr> proc_stdin = True, pending = [''u1'' \<mapsto> 0, ''u2'' \<mapsto> 1],
         progressCallbacks = [''u1'' \<mapsto> (0, cb)], writeLock = Writing 0 ''u1'',
         waiting = [(1, ''u2'', ''{id:u2,method:transcribe,params:{}}'' @ [newline])],
         wire = [''{id:u1,method:transcribe,params:{}}'' @ [newline]],
         issued = [''u1'', ''u2''],
         enqueued = [''{id:u1,method:transcribe,params:{}}'' @ [newline],
                     ''{id:u2,method:transcribe,params:{}}'' @ [newline]],
         journal = [],
         console = [CallingMethod ''transcribe'' ''u1'', SendingRequest,
                    CallingMethod ''transcribe'' ''u2'', SendingRequest, WritingToProcess] \<rparr>"
  by (simp add: sample_one_call)
     (simp add: sample_def sample_stringify_def call_def Let_def console_log_def
        writeWithLock_def write_turn_def)

subsection \<open>Requests on the wire\<close>

lemma enqueued_step:
  "enqueued (step rt e st) = enqueued st @ call_lines rt [e]"
  by (cases e)
     (simp_all add: call_def Let_def writeWithLock_def write_turn_def write_callback_def
        flush_timer_def split: option.splits list.splits chain.splits)

lemma call_lines_Cons: "call_lines rt (e # es) = call_lines rt [e] @ call_lines rt es"
  by (cases e) (simp_all split: option.splits)

lemma enqueued_run:
  "enqueued (run rt es st) = enqueued st @ call_lines rt es"
proof (induction es arbitrary: st)
  case Nil
  then show ?case by simp
next
  case (Cons e es)
  show ?case
    using Cons.IH [of "step rt e st"] call_lines_Cons [of rt e es]
    by (simp add: enqueued_step)
qed

lemma call_lines_shape:
  "l \<in> set (call_lines rt es) \<Longrightarrow>
   \<exists>i m p s. JSON_stringify rt i m p = Some s \<and> l = s @ [newline]"
  by (induction rt es rule: call_lines.induct) (auto split: option.splits)

lemma proc_stdin_step [simp]: "proc_stdin (step rt e st) = proc_stdin st"
  by (cases e)
     (simp_all add: write_turn_def write_callback_def flush_timer_def
        split: option.splits list.splits chain.splits)

lemma proc_stdin_run [simp]: "proc_stdin (run rt es st) = proc_stdin st"
  by (induction es arbitrary: st) simp_all

lemma wire_accounted_init: "wire_accounted (init available)"
  by (simp add: wire_accounted_def init_def)

lemma wire_accounted_call:
  assumes "wire_accounted st"
  shows "wire_accounted (fst (call rt i m p cb st))"
proof -
  obtain sk where sk: "enqueued st = wire st @ sk @ map (\<lambda>(h, i, data). data) (waiting st)"
    "sk = [] \<or> (\<exists>err. writeLock st = Failed err)"
    using assms unfolding wire_accounted_def by blast
  show ?thesis
  proof (cases "JSON_stringify rt i m p")
    case None
    then have "enqueued (fst (call rt i m p cb st)) = enqueued st"
      "waiting (fst (call rt i m p cb st)) = waiting st"
      by (simp_all add: call_def Let_def split: option.splits)
    with sk show ?thesis
      unfolding wire_accounted_def by auto
  next
    case (Some s)
    then have "enqueued (fst (call rt i m p cb st)) = enqueued st @ [s @ [newline]]"
      "waiting (fst (call rt i m p cb st))
         = waiting st @ [(length (issued st), i, s @ [newline])]"
      by (simp_all add: call_def Let_def writeWithLock_def split: option.splits)
    with sk show ?thesis
      unfolding wire_accounted_def by auto
  qed
qed

lemma wire_accounted_on_line:
  "wire_accounted st \<Longrightarrow> wire_accounted (on_line rt l st)"
  by (simp add: wire_accounted_def)

lemma wire_accounted_write_turn:
  assumes "wire_accounted st"
  shows "wire_accounted (write_turn st)"
proof -
  obtain sk where sk: "enqueued st = wire st @ sk @ map (\<lambda>(h, i, data). data) (waiting st)"
    "sk = [] \<or> (\<exists>err. writeLock st = Failed err)"
    using assms unfolding wire_accounted_def by blast
  show ?thesis
  proof (cases "waiting st")
    case Nil
    then show ?thesis using assms by (simp add: write_turn_def)
  next
    case (Cons w rest)
    obtain h i d where w: "w = (h, i, d)" by (cases w)
    show ?thesis
    proof (cases "writeLock st")
      case Idle
      with sk have e: "enqueued st = wire st @ d # map (\<lambda>(h, i, data). data) rest"
        using Cons w by simp
      show ?thesis
      proof (cases "proc_stdin st")
        case True
        with Cons w Idle e show ?thesis
          by (simp add: write_turn_def wire_accounted_def)
      next
        case False
        with Cons w Idle e show ?thesis
          by (auto simp: write_turn_def wire_accounted_def intro!: exI [of _ "[d]"])
      qed
    next
      case (Failed err)
      with Cons w sk show ?thesis
        by (auto simp: write_turn_def wire_accounted_def intro!: exI [of _ "sk @ [d]"])
    qed (use assms Cons w in \<open>simp_all add: write_turn_def\<close>)
  qed
qed

lemma wire_accounted_write_callback:
  assumes "wire_accounted st"
  shows "wire_accounted (write_callback err st)"
proof (cases "writeLock st")
  case (Writing h i)
  with assms show ?thesis
    by (cases err) (auto simp: write_callback_def wire_accounted_def)
qed (use assms in \<open>simp_all add: write_callback_def\<close>)

lemma wire_accounted_flush_timer:
  assumes "wire_accounted st"
  shows "wire_accounted (flush_timer st)"
proof (cases "writeLock st")
  case Flushing
  with assms show ?thesis
    by (auto simp: flush_timer_def wire_accounted_def)
qed (use assms in \<open>simp_all add: flush_timer_def\<close>)

lemma wire_accounted_step: "wire_accounted st \<Longrightarrow> wire_accounted (step rt e st)"
  by (cases e)
     (simp_all add: wire_accounted_call wire_accounted_on_line wire_accounted_write_turn
        wire_accounted_write_callback wire_accounted_flush_timer)

lemma wire_accounted_run: "wire_accounted st \<Longrightarrow> wire_accounted (run rt es st)"
proof (induction es arbitrary: st)
  case Nil
  then show ?case by simp
next
  case (Cons e es)
  from Cons.IH [OF wire_accounted_step [OF Cons.prems]] show ?case by simp
qed

lemma write_round:
  assumes "writeLock st = Idle" "proc_stdin st" "waiting st = (h, i, d) # rest"
  shows "writeLock (run rt [WriteTurn, WriteCallback None, FlushTimer] st) = Idle"
    and "proc_stdin (run rt [WriteTurn, WriteCallback None, FlushTimer] st)"
    and "waiting (run rt [WriteTurn, WriteCallback None, FlushTimer] st) = rest"
    and "wire (run rt [WriteTurn, WriteCallback None, FlushTimer] st) = wire st @ [d]"
  using assms
  by (simp_all add: write_turn_def write_callback_def flush_timer_def)

lemma drain_idle:
  assumes "writeLock st = Idle" "proc_stdin st"
  shows "wire (run rt (concat (replicate (length (waiting st))
                 [WriteTurn, WriteCallback None, FlushTimer])) st)
           = wire st @ map (\<lambda>(h, i, data). data) (waiting st)"
  using assms
proof (induction "waiting st" arbitrary: st)
  case Nil
  then show ?case by simp
next
  case (Cons w rest)
  obtain h i d where w: "w = (h, i, d)" by (cases w)
  let ?st = "run rt [WriteTurn, WriteCallback None, FlushTimer] st"
  have ws: "waiting st = (h, i, d) # rest"
    using Cons.hyps(2) w by simp
  note r = write_round [OF Cons.prems ws, of rt]
  have "wire (run rt (concat (replicate (length (waiting ?st))
                 [WriteTurn, WriteCallback None, FlushTimer])) ?st)
           = wire ?st @ map (\<lambda>(h, i, data). data) (waiting ?st)"
    by (rule Cons.hyps(1)) (simp_all only: r)
  then show ?case
    unfolding r ws by (simp add: run_append [symmetric] del: run.simps)
qed

lemma complete_writes_wire:
  assumes "proc_stdin st" "\<forall>err. writeLock st \<noteq> Failed err"
  shows "wire (run rt (complete_writes st) st)
           = wire st @ map (\<lambda>(h, i, data). data) (waiting st)"
proof (cases "writeLock st")
  case Idle
  then show ?thesis
    using drain_idle [OF Idle assms(1), of rt] by (simp add: complete_writes_def)
next
  case (Writing h i)
  let ?st = "run rt [WriteCallback None, FlushTimer] st"
  have s: "writeLock ?st = Idle" "proc_stdin ?st" "waiting ?st = waiting st" "wire ?st = wire st"
    using Writing assms(1) by (simp_all add: write_callback_def flush_timer_def)
  have "run rt (complete_writes st) st
      = run rt (concat (replicate (length (waiting ?st))
                 [WriteTurn, WriteCallback None, FlushTimer])) ?st"
    using Writing s(3)
    by (simp only: complete_writes_def chain.simps run_append)
  then show ?thesis
    using drain_idle [OF s(1,2), of rt] s(3,4) by simp
next
  case Flushing
  let ?st = "run rt [FlushTimer] st"
  have s: "writeLock ?st = Idle" "proc_stdin ?st" "waiting ?st = waiting st" "wire ?st = wire st"
    using Flushing assms(1) by (simp_all add: flush_timer_def)
  have "run rt (complete_writes st) st
      = run rt (concat (replicate (length (waiting ?st))
                 [WriteTurn, WriteCallback None, FlushTimer])) ?st"
    using Flushing s(3)
    by (simp only: complete_writes_def chain.simps run_append)
  then show ?thesis
    using drain_idle [OF s(1,2), of rt] s(3,4) by simp
next
  case (Failed err)
  with assms(2) show ?thesis by simp
qed

lemma one_line:
  assumes "newline \<notin> set s"
  shows "last (s @ [newline]) = newline \<and> count_list (s @ [newline]) newline = 1"
  using assms by (simp add: count_list_0_iff)

lemma escape_newlines_clean: "newline \<notin> set (escape_newlines s)"
  by (induction s) auto

lemma sample_stringify_clean:
  "JSON_stringify sample i method params = Some s \<Longrightarrow> newline \<notin> set s"
  by (auto simp: sample_def sample_stringify_def escape_newlines_clean split: option.splits)

subsection \<open>The two tables\<close>

lemma tables_finish:
  "pending (finish i out st) = (pending st)(i := None)"
  "progressCallbacks (finish i out st) = (progressCallbacks st)(i := None)"
  by (simp_all add: finish_def Let_def split: option.splits)

lemma tables_write_failed:
  "pending (write_failed h i err st) = (pending st)(i := None)"
  "progressCallbacks (write_failed h i err st) = (progressCallbacks st)(i := None)"
  by (simp_all add: write_failed_def Let_def)

lemma tables_on_line:
  "(pending (on_line rt l st) = pending st
      \<and> progressCallbacks (on_line rt l st) = progressCallbacks st)
   \<or> (\<exists>i. pending (on_line rt l st) = (pending st)(i := None)
      \<and> progressCallbacks (on_line rt l st) = (progressCallbacks st)(i := None))"
proof -
  consider (same) "sans_console (on_line rt l st) = sans_console st"
    | (invoke) h msg where
        "sans_console (on_line rt l st)
           = sans_console (st\<lparr>journal := journal st @ [Invoked h msg]\<rparr>)"
    | (finish) i out where "sans_console (on_line rt l st) = sans_console (finish i out st)"
    using on_line_shape [of rt l st] by blast
  then show ?thesis
  proof cases
    case same
    from sans_console_fields(1,2) [OF this] show ?thesis by simp
  next
    case invoke
    from sans_console_fields(1,2) [OF this] show ?thesis by simp
  next
    case finish
    from sans_console_fields(1,2) [OF this] show ?thesis
      by (auto simp: tables_finish)
  qed
qed

lemma superset_forget:
  "dom c \<subseteq> dom p \<Longrightarrow> dom (c(i := None)) \<subseteq> dom (p(i := None))"
  by auto

lemma superset_write_failed:
  assumes "dom (progressCallbacks st) \<subseteq> dom (pending st)"
  shows "dom (progressCallbacks (write_failed h i err st)) \<subseteq> dom (pending (write_failed h i err st))"
  unfolding tables_write_failed using assms by (rule superset_forget)

lemma superset_call:
  assumes "JSON_stringify rt i m p = Some s"
    and "dom (progressCallbacks st) \<subseteq> dom (pending st)"
  shows "dom (progressCallbacks (fst (call rt i m p cb st)))
           \<subseteq> dom (pending (fst (call rt i m p cb st)))"
proof -
  have "pending (fst (call rt i m p cb st)) = (pending st)(i \<mapsto> length (issued st))"
    using assms(1) by (simp add: call_def Let_def writeWithLock_def split: option.splits)
  moreover have "progressCallbacks (fst (call rt i m p cb st)) = progressCallbacks st
      \<or> (\<exists>c. progressCallbacks (fst (call rt i m p cb st)) = (progressCallbacks st)(i \<mapsto> c))"
    using assms(1) by (cases cb) (auto simp: call_def Let_def writeWithLock_def)
  moreover have "dom c \<subseteq> dom q \<Longrightarrow> dom c \<subseteq> dom (q(i \<mapsto> y))"
    and "dom c \<subseteq> dom q \<Longrightarrow> dom (c(i \<mapsto> x)) \<subseteq> dom (q(i \<mapsto> y))"
    for c :: "uuid \<rightharpoonup> nat \<times> callback" and q :: "uuid \<rightharpoonup> nat" and x y
    by auto
  ultimately show ?thesis
    using assms(2) by metis
qed

lemma superset_write_turn:
  assumes "dom (progressCallbacks st) \<subseteq> dom (pending st)"
  shows "dom (progressCallbacks (write_turn st)) \<subseteq> dom (pending (write_turn st))"
proof (cases "waiting st")
  case Nil
  with assms show ?thesis by (simp add: write_turn_def)
next
  case (Cons w rest)
  obtain h i d where w: "w = (h, i, d)" by (cases w)
  have a: "dom (progressCallbacks (st\<lparr>waiting := rest, writeLock := k\<rparr>))
             \<subseteq> dom (pending (st\<lparr>waiting := rest, writeLock := k\<rparr>))" for k
    using assms by simp
  have b: "dom (progressCallbacks (st\<lparr>waiting := rest\<rparr>)) \<subseteq> dom (pending (st\<lparr>waiting := rest\<rparr>))"
    using assms by simp
  show ?thesis
  proof (cases "writeLock st")
    case Idle
    show ?thesis
    proof (cases "proc_stdin st")
      case True
      with Cons w Idle assms show ?thesis by (simp add: write_turn_def)
    next
      case False
      with Cons w Idle superset_write_failed [OF a, of h i not_available "Failed not_available"]
      show ?thesis by (simp add: write_turn_def)
    qed
  next
    case (Failed err)
    with Cons w superset_write_failed [OF b, of h i err] show ?thesis
      by (simp add: write_turn_def)
  qed (use Cons w assms in \<open>simp_all add: write_turn_def\<close>)
qed

lemma superset_write_callback:
  assumes "dom (progressCallbacks st) \<subseteq> dom (pending st)"
  shows "dom (progressCallbacks (write_callback err st)) \<subseteq> dom (pending (write_callback err st))"
proof (cases "writeLock st")
  case (Writing h i)
  show ?thesis
  proof (cases err)
    case None
    with Writing assms show ?thesis by (simp add: write_callback_def)
  next
    case (Some e)
    have "dom (progressCallbacks (console_log (WriteError e) (st\<lparr>writeLock := Failed e\<rparr>)))
        \<subseteq> dom (pending (console_log (WriteError e) (st\<lparr>writeLock := Failed e\<rparr>)))"
      using assms by simp
    from superset_write_failed [OF this, of h i e] Some Writing show ?thesis
      by (simp add: write_callback_def)
  qed
qed (use assms in \<open>simp_all add: write_callback_def\<close>)

lemma superset_on_line:
  assumes "dom (progressCallbacks st) \<subseteq> dom (pending st)"
  shows "dom (progressCallbacks (on_line rt l st)) \<subseteq> dom (pending (on_line rt l st))"
proof -
  consider (same) "pending (on_line rt l st) = pending st"
      "progressCallbacks (on_line rt l st) = progressCallbacks st"
    | (forget) i where "pending (on_line rt l st) = (pending st)(i := None)"
      "progressCallbacks (on_line rt l st) = (progressCallbacks st)(i := None)"
    using tables_on_line [of rt l st] by blast
  then show ?thesis
  proof cases
    case same
    with assms show ?thesis by simp
  next
    case forget
    show ?thesis unfolding forget using assms by (rule superset_forget)
  qed
qed

lemma superset_step:
  assumes "serialises rt e"
    and "dom (progressCallbacks st) \<subseteq> dom (pending st)"
  shows "dom (progressCallbacks (step rt e st)) \<subseteq> dom (pending (step rt e st))"
proof (cases e)
  case (Call i m p cb)
  with assms(1) obtain s where "JSON_stringify rt i m p = Some s" by auto
  from superset_call [OF this assms(2)] Call show ?thesis by simp
next
  case (Line l)
  with superset_on_line [OF assms(2)] show ?thesis by simp
next
  case WriteTurn
  with superset_write_turn [OF assms(2)] show ?thesis by simp
next
  case (WriteCallback err)
  with superset_write_callback [OF assms(2)] show ?thesis by simp
next
  case FlushTimer
  with assms(2) show ?thesis
    by (simp add: flush_timer_def split: chain.splits)
qed

lemma superset_run:
  assumes "list_all (serialises rt) es"
    and "dom (progressCallbacks st) \<subseteq> dom (pending st)"
  shows "dom (progressCallbacks (run rt es st)) \<subseteq> dom (pending (run rt es st))"
  using assms
proof (induction es arbitrary: st)
  case Nil
  then show ?case by simp
next
  case (Cons e es)
  from Cons.prems have "serialises rt e" "list_all (serialises rt) es" by simp_all
  from Cons.IH [OF this(2) superset_step [OF this(1) Cons.prems(2)]] show ?case by simp
qed

lemma pending_was_issued:
  assumes "st = run rt es (init available)" and "pending st i = Some h"
  shows "h < length (issued st) \<and> issued st ! h = i"
  using inv_pendingD [OF inv_reachable, of rt es available i h] assms
  by (simp add: owns_def)

text \<open>
  What holds of C9 when every request can be serialised: the keys of the progress table are
  keys of the correlation table, and every key of the correlation table is the identifier
  drawn by the call whose handle the table holds under it.
\<close>

lemma tables_when_serialisable:
  assumes "list_all (serialises rt) es" and "st = run rt es (init available)"
  shows "dom (progressCallbacks st) \<subseteq> dom (pending st)"
    and "pending st i = Some h \<Longrightarrow> h < length (issued st) \<and> issued st ! h = i"
  using superset_run [OF assms(1), of "init available"] pending_was_issued [OF assms(2)]
  by (simp_all add: assms(2) init_def)

text \<open>
  C9: after every public operation the keys of the progress table are keys of the
  correlation table. \<open>call\<close> stores the progress callback before it serialises the
  request and registers the promise after; when \<open>JSON.stringify\<close> throws (\<open>params\<close> with
  a BigInt or a cycle), \<open>call\<close> throws with the subscription stored and nothing under the
  same identifier in the correlation table.
\<close>

theorem unserialisable_call_leaves_subscription:
  "snd (call sample ''u1'' ''transcribe'' None (Some quiet) (init True)) = Inl TypeError
   \<and> progressCallbacks (run sample [Call ''u1'' ''transcribe'' None (Some quiet)] (init True)) ''u1''
       = Some (0, quiet)
   \<and> pending (run sample [Call ''u1'' ''transcribe'' None (Some quiet)] (init True)) ''u1'' = None"
  by (simp add: sample_def sample_stringify_def call_def Let_def console_log_def init_def)

subsection \<open>A failed write and the requests behind it\<close>

text \<open>
  C6: when the write that carries a request fails, because there is no process to write to,
  because \<open>stdin.write\<close> reports an error, or because the chain was already rejected by an
  earlier write when the turn of this one came, the promise of the request, if still
  pending, is rejected with that error and the identifier of the request is in neither
  table afterwards.
\<close>

theorem write_failure_rejects_and_forgets:
  assumes "settled_in (journal st) h = None"
  shows "(waiting st = (h, i, data) # rest \<and> writeLock st = Idle \<and> \<not> proc_stdin st \<longrightarrow>
            settled_in (journal (write_turn st)) h = Some (Rejected not_available)
            \<and> pending (write_turn st) i = None \<and> progressCallbacks (write_turn st) i = None)
    \<and> (writeLock st = Writing h i \<longrightarrow>
            settled_in (journal (write_callback (Some err) st)) h = Some (Rejected err)
            \<and> pending (write_callback (Some err) st) i = None
            \<and> progressCallbacks (write_callback (Some err) st) i = None)
    \<and> (waiting st = (h, i, data) # rest \<and> writeLock st = Failed earlier \<longrightarrow>
            settled_in (journal (write_turn st)) h = Some (Rejected earlier)
            \<and> pending (write_turn st) i = None \<and> progressCallbacks (write_turn st) i = None)"
proof (intro conjI impI)
  assume a: "waiting st = (h, i, data) # rest \<and> writeLock st = Idle \<and> \<not> proc_stdin st"
  let ?st = "st\<lparr>waiting := rest, writeLock := Failed not_available\<rparr>"
  have w: "write_turn st = write_failed h i not_available ?st"
    using a by (simp add: write_turn_def)
  have u: "settled_in (journal ?st) h = None"
    using assms by simp
  show "settled_in (journal (write_turn st)) h = Some (Rejected not_available)"
    and "pending (write_turn st) i = None"
    and "progressCallbacks (write_turn st) i = None"
    unfolding w using write_failed_effect(1-3) [OF u] by simp_all
next
  assume a: "writeLock st = Writing h i"
  let ?st = "console_log (WriteError err) (st\<lparr>writeLock := Failed err\<rparr>)"
  have w: "write_callback (Some err) st = write_failed h i err ?st"
    using a by (simp add: write_callback_def)
  have u: "settled_in (journal ?st) h = None"
    using assms by simp
  show "settled_in (journal (write_callback (Some err) st)) h = Some (Rejected err)"
    and "pending (write_callback (Some err) st) i = None"
    and "progressCallbacks (write_callback (Some err) st) i = None"
    unfolding w using write_failed_effect(1-3) [OF u] by simp_all
next
  assume a: "waiting st = (h, i, data) # rest \<and> writeLock st = Failed earlier"
  let ?st = "st\<lparr>waiting := rest\<rparr>"
  have w: "write_turn st = write_failed h i earlier ?st"
    using a by (simp add: write_turn_def)
  have u: "settled_in (journal ?st) h = None"
    using assms by simp
  show "settled_in (journal (write_turn st)) h = Some (Rejected earlier)"
    and "pending (write_turn st) i = None"
    and "progressCallbacks (write_turn st) i = None"
    unfolding w using write_failed_effect(1-3) [OF u] by simp_all
qed

lemma sample_two_calls_unavailable:
  "write_turn (fst (call sample ''u2'' ''transcribe'' (Some ''{}'') None
      (fst (call sample ''u1'' ''transcribe'' (Some ''{}'') (Some cb) (init False)))))
     = \<lparr> proc_stdin = False, pending = [''u2'' \<mapsto> 1],
         progressCallbacks = Map.empty, writeLock = Failed not_available,
         waiting = [(1, ''u2'', ''{id:u2,method:transcribe,params:{}}'' @ [newline])],
         wire = [],
         issued = [''u1'', ''u2''],
         enqueued = [''{id:u1,method:transcribe,params:{}}'' @ [newline],
                     ''{id:u2,method:transcribe,params:{}}'' @ [newline]],
         journal = [Settled 0 (Rejected not_available)],
         console = [CallingMethod ''transcribe'' ''u1'', SendingRequest,
                    CallingMethod ''transcribe'' ''u2'', SendingRequest,
                    WriteLockChainError not_available, FailedToWrite not_available] \<rparr>"
  by (simp add: sample_one_call_unavailable)
     (auto simp: sample_def sample_stringify_def call_def Let_def console_log_def
        writeWithLock_def write_turn_def write_failed_def settle_def)

theorem write_failure_rejects_and_forgets_witness:
  "(let st = run sample [Call ''u1'' ''transcribe'' (Some ''{}'') (Some quiet), WriteTurn,
                         WriteCallback (Some epipe)] (init True)
    in settled_in (journal st) 0 = Some (Rejected epipe)
       \<and> pending st ''u1'' = None \<and> progressCallbacks st ''u1'' = None)
   \<and> (let st = run sample [Call ''u1'' ''transcribe'' (Some ''{}'') (Some quiet), WriteTurn]
                  (init False)
      in settled_in (journal st) 0 = Some (Rejected not_available)
         \<and> pending st ''u1'' = None \<and> progressCallbacks st ''u1'' = None)
   \<and> (let st = run sample [Call ''u1'' ''transcribe'' (Some ''{}'') (Some quiet),
                           Call ''u2'' ''transcribe'' (Some ''{}'') None, WriteTurn, WriteTurn]
                  (init False)
      in settled_in (journal st) 1 = Some (Rejected not_available)
         \<and> pending st ''u2'' = None \<and> progressCallbacks st ''u2'' = None)"
proof -
  let ?a = "write_turn (fst (call sample ''u1'' ''transcribe'' (Some ''{}'') (Some quiet) (init True)))"
  let ?b = "fst (call sample ''u1'' ''transcribe'' (Some ''{}'') (Some quiet) (init False))"
  let ?c = "write_turn (fst (call sample ''u2'' ''transcribe'' (Some ''{}'') None
      (fst (call sample ''u1'' ''transcribe'' (Some ''{}'') (Some quiet) (init False)))))"
  have ua: "settled_in (journal ?a) 0 = None"
    by (simp add: sample_writing)
  have wa: "writeLock ?a = Writing 0 ''u1''"
    by (simp add: sample_writing)
  have ub: "settled_in (journal ?b) 0 = None"
    by (simp add: sample_one_call_unavailable)
  have wb: "waiting ?b = [(0, ''u1'', ''{id:u1,method:transcribe,params:{}}'' @ [newline])]
      \<and> writeLock ?b = Idle \<and> \<not> proc_stdin ?b"
    by (simp add: sample_one_call_unavailable)
  have uc: "settled_in (journal ?c) 1 = None"
    by (simp add: sample_two_calls_unavailable)
  have wc: "waiting ?c = [(1, ''u2'', ''{id:u2,method:transcribe,params:{}}'' @ [newline])]
      \<and> writeLock ?c = Failed not_available"
    by (simp add: sample_two_calls_unavailable)
  note ta = conjunct1 [OF conjunct2 [OF write_failure_rejects_and_forgets
      [OF ua, where i = "''u1''" and err = epipe]], rule_format, OF wa]
  note tb = conjunct1 [OF write_failure_rejects_and_forgets [OF ub, where i = "''u1''"],
      rule_format, OF wb]
  note tc = conjunct2 [OF conjunct2 [OF write_failure_rejects_and_forgets
      [OF uc, where i = "''u2''"]], rule_format, OF wc]
  show ?thesis
    unfolding Let_def using ta tb tc by simp
qed







lemma sample_two_calls_failed:
  "write_callback (Some epipe)
     (write_turn (fst (call sample ''u2'' ''transcribe'' (Some ''{}'') None
        (fst (call sample ''u1'' ''transcribe'' (Some ''{}'') (Some cb) (init True))))))
     = \<lparr> proc_stdin = True, pending = [''u2'' \<mapsto> 1],
         progressCallbacks = Map.empty, writeLock = Failed epipe,
         waiting = [(1, ''u2'', ''{id:u2,method:transcribe,params:{}}'' @ [newline])],
         wire = [''{id:u1,method:transcribe,params:{}}'' @ [newline]],
         issued = [''u1'', ''u2''],
         enqueued = [''{id:u1,method:transcribe,params:{}}'' @ [newline],
                     ''{id:u2,method:transcribe,params:{}}'' @ [newline]],
         journal = [Settled 0 (Rejected epipe)],
         console = [CallingMethod ''transcribe'' ''u1'', SendingRequest,
                    CallingMethod ''transcribe'' ''u2'', SendingRequest, WritingToProcess,
                    WriteError epipe, WriteLockChainError epipe, FailedToWrite epipe] \<rparr>"
  by (simp add: sample_two_calls_writing)
     (auto simp: write_callback_def write_failed_def Let_def console_log_def settle_def)


subsection \<open>Which lines reach the process\<close>

text \<open>
  C7, as the specification states it: for any two calls the process receives the two request
  lines, in the order of the calls. When the write of the first line fails, the chain is
  rejected and the line of the second call is never handed to \<open>stdin.write\<close>, however the
  chain is run on.
\<close>

theorem second_line_never_written_counterexample:
  "call_lines sample [Call ''u1'' ''transcribe'' (Some ''{}'') (Some quiet),
                      Call ''u2'' ''transcribe'' (Some ''{}'') None]
     = [''{id:u1,method:transcribe,params:{}}'' @ [newline],
        ''{id:u2,method:transcribe,params:{}}'' @ [newline]]
   \<and> wire (run sample [Call ''u1'' ''transcribe'' (Some ''{}'') (Some quiet),
                        Call ''u2'' ''transcribe'' (Some ''{}'') None,
                        WriteTurn, WriteCallback (Some epipe),
                        WriteTurn, WriteCallback None, FlushTimer,
                        WriteTurn, WriteCallback None, FlushTimer] (init True))
       = [''{id:u1,method:transcribe,params:{}}'' @ [newline]]"
proof -
  have "wire (run sample [WriteTurn, WriteCallback None, FlushTimer,
                          WriteTurn, WriteCallback None, FlushTimer]
          (write_callback (Some epipe)
            (write_turn (fst (call sample ''u2'' ''transcribe'' (Some ''{}'') None
              (fst (call sample ''u1'' ''transcribe'' (Some ''{}'') (Some quiet) (init True)))))))) 
        = [''{id:u1,method:transcribe,params:{}}'' @ [newline]]"
    using failed_run [of _ epipe sample] by (simp add: sample_two_calls_failed del: run.simps)
  then show ?thesis
    by (simp add: sample_def sample_stringify_def)
qed

text \<open>
  C7, amended: every call whose request \<open>JSON.stringify\<close> accepts enqueues one request
  line. In every run, what has been handed to \<open>stdin.write\<close> is, chunk by chunk, a prefix
  of the request lines of the calls in the order of the calls. While no write has failed,
  the lines not yet written are exactly those waiting on the chain, in call order, and when
  the process is available, letting the chain run to its end writes them all: the process
  then has received every request line, whole and in call order. Once a write has failed,
  nothing more is written, whatever happens. Each request line ends with a line feed, and
  has no other when \<open>JSON.stringify\<close> prints none, as it never does.
\<close>

theorem calls_reach_the_wire_in_order:
  assumes "st = run rt evs (init available)"
  shows "prefix (wire st) (call_lines rt evs)
    \<and> ((\<forall>err. writeLock st \<noteq> Failed err) \<longrightarrow>
          call_lines rt evs = wire st @ map (\<lambda>(h, i, data). data) (waiting st)
          \<and> (available \<longrightarrow> wire (run rt (complete_writes st) st) = call_lines rt evs))
    \<and> ((\<exists>err. writeLock st = Failed err) \<longrightarrow> (\<forall>es. wire (run rt es st) = wire st))
    \<and> ((\<forall>i method params s. JSON_stringify rt i method params = Some s \<longrightarrow> newline \<notin> set s)
          \<longrightarrow> (\<forall>l \<in> set (call_lines rt evs). last l = newline \<and> count_list l newline = 1))"
proof -
  have e: "enqueued st = call_lines rt evs"
    unfolding assms by (simp add: enqueued_run init_def)
  have "wire_accounted st"
    unfolding assms by (intro wire_accounted_run wire_accounted_init)
  then obtain sk where sk: "enqueued st = wire st @ sk @ map (\<lambda>(h, i, data). data) (waiting st)"
    "sk = [] \<or> (\<exists>err. writeLock st = Failed err)"
    unfolding wire_accounted_def by blast
  have p: "proc_stdin st = available"
    unfolding assms by (simp add: init_def)
  have 1: "prefix (wire st) (call_lines rt evs)"
    using sk(1) e by (metis prefixI)
  have 2: "call_lines rt evs = wire st @ map (\<lambda>(h, i, data). data) (waiting st)
          \<and> (available \<longrightarrow> wire (run rt (complete_writes st) st) = call_lines rt evs)"
    if n: "\<forall>err. writeLock st \<noteq> Failed err"
  proof -
    have a: "call_lines rt evs = wire st @ map (\<lambda>(h, i, data). data) (waiting st)"
      using n sk e by auto
    have "wire (run rt (complete_writes st) st) = call_lines rt evs" if available
      using complete_writes_wire [OF _ n, of rt] p that a by simp
    with a show ?thesis by blast
  qed
  have 3: "\<forall>es. wire (run rt es st) = wire st" if "\<exists>err. writeLock st = Failed err"
    using that failed_run [of st _ rt] by blast
  have 4: "\<forall>l \<in> set (call_lines rt evs). last l = newline \<and> count_list l newline = 1"
    if "\<forall>i method params s. JSON_stringify rt i method params = Some s \<longrightarrow> newline \<notin> set s"
    using that call_lines_shape [of _ rt evs] one_line by metis
  from 1 2 3 4 show ?thesis by blast
qed

theorem calls_reach_the_wire_in_order_witness:
  "(let evs = [Call ''u1'' ''transcribe'' (Some ''{}'') (Some quiet),
               Call ''u2'' ''transcribe'' (Some ''{}'') None, WriteTurn];
        st = run sample evs (init True)
    in call_lines sample evs = [''{id:u1,method:transcribe,params:{}}'' @ [newline],
                                ''{id:u2,method:transcribe,params:{}}'' @ [newline]]
       \<and> wire st = [''{id:u1,method:transcribe,params:{}}'' @ [newline]]
       \<and> prefix (wire st) (call_lines sample evs)
       \<and> wire (run sample [WriteCallback None, FlushTimer,
                             WriteTurn, WriteCallback None, FlushTimer] st)
           = call_lines sample evs
       \<and> list_all (\<lambda>l. last l = newline \<and> count_list l newline = 1) (call_lines sample evs))
   \<and> (let evs = [Call ''u1'' ''transcribe'' (Some ''{}'') (Some quiet),
                 Call ''u2'' ''transcribe'' (Some ''{}'') None, WriteTurn,
                 WriteCallback (Some epipe)];
          st = run sample evs (init True)
      in wire (run sample [WriteTurn, WriteCallback None, FlushTimer] st) = wire st)"
proof -
  let ?evs = "[Call ''u1'' ''transcribe'' (Some ''{}'') (Some quiet),
               Call ''u2'' ''transcribe'' (Some ''{}'') None, WriteTurn]"
  let ?evf = "[Call ''u1'' ''transcribe'' (Some ''{}'') (Some quiet),
               Call ''u2'' ''transcribe'' (Some ''{}'') None, WriteTurn,
               WriteCallback (Some epipe)]"
  let ?st = "write_turn (fst (call sample ''u2'' ''transcribe'' (Some ''{}'') None
      (fst (call sample ''u1'' ''transcribe'' (Some ''{}'') (Some quiet) (init True)))))"
  have r: "run sample ?evs (init True) = ?st"
    by simp
  have c: "call_lines sample ?evs = [''{id:u1,method:transcribe,params:{}}'' @ [newline],
                                ''{id:u2,method:transcribe,params:{}}'' @ [newline]]"
    by (simp add: sample_def sample_stringify_def)
  have w: "wire ?st = [''{id:u1,method:transcribe,params:{}}'' @ [newline]]"
    and l: "\<forall>err. writeLock ?st \<noteq> Failed err"
    and cw: "complete_writes ?st = [WriteCallback None, FlushTimer,
                             WriteTurn, WriteCallback None, FlushTimer]"
    by (simp_all add: sample_two_calls_writing complete_writes_def)
  note th = calls_reach_the_wire_in_order [OF r [symmetric]]
  have 1: "prefix (wire ?st) (call_lines sample ?evs)"
    using th by (rule conjunct1)
  have 2: "wire (run sample (complete_writes ?st) ?st) = call_lines sample ?evs"
    using conjunct1 [OF conjunct2 [OF th], THEN mp, OF l] by simp
  have "\<forall>i method params s. JSON_stringify sample i method params = Some s \<longrightarrow> newline \<notin> set s"
    using sample_stringify_clean by blast
  from conjunct2 [OF conjunct2 [OF conjunct2 [OF th]], THEN mp, OF this]
  have 3: "list_all (\<lambda>l. last l = newline \<and> count_list l newline = 1) (call_lines sample ?evs)"
    unfolding list_all_iff by blast
  have f: "\<exists>err. writeLock (run sample ?evf (init True)) = Failed err"
    by (simp add: sample_two_calls_failed)
  from conjunct1 [OF conjunct2 [OF conjunct2 [OF calls_reach_the_wire_in_order
      [OF refl, of sample ?evf True]]], THEN mp, OF f]
  have 4: "wire (run sample [WriteTurn, WriteCallback None, FlushTimer]
                  (run sample ?evf (init True))) = wire (run sample ?evf (init True))"
    by blast
  show ?thesis
    unfolding Let_def r using c w 1 2 3 4 unfolding cw r by (simp only: simp_thms)
qed

end
